theory Spec2Isabelle
  imports Complex_Main "HOL-Library.AList" "HOL-Library.Multiset"
begin

section \<open>Hotel search aggregation service\<close>

text \<open>
  A shallow embedding of the search pipeline of the hotels repository: the normalizer and
  the aggregator (\<^verbatim>\<open>internal/search/aggregator.go\<close>), the TTL cache with request
  collapsing (\<^verbatim>\<open>internal/search/cache/cache.go\<close>), the token-bucket rate limiter
  (\<^verbatim>\<open>internal/search/ratelimit/ratelimit.go\<close>) and the validation of the search
  parameters (\<^verbatim>\<open>ParseSearchParams\<close> of the handler package).
\<close>

subsection \<open>Go values: float64 comparison, strings\<close>

text \<open>
  The pipeline never does arithmetic on a price: it only compares prices (\<^verbatim>\<open><=\<close> against
  zero, \<^verbatim>\<open><\<close> between two prices). A \<^verbatim>\<open>float64\<close> is therefore modelled by the
  values that IEEE 754 comparison distinguishes: not-a-number, the two infinities, and a
  finite number (every finite \<^verbatim>\<open>float64\<close> is a real number; the two zeros compare equal).
  Every comparison with \<open>NaN\<close> is false.
\<close>

datatype float64 = NaN | NegInf | Finite real | PosInf

fun f64_lt :: "float64 \<Rightarrow> float64 \<Rightarrow> bool" where
  "f64_lt (Finite x) (Finite y) = (x < y)"
| "f64_lt NegInf (Finite y) = True"
| "f64_lt NegInf PosInf = True"
| "f64_lt (Finite x) PosInf = True"
| "f64_lt _ _ = False"

fun f64_le :: "float64 \<Rightarrow> float64 \<Rightarrow> bool" where
  "f64_le (Finite x) (Finite y) = (x \<le> y)"
| "f64_le NegInf NegInf = True"
| "f64_le NegInf (Finite y) = True"
| "f64_le NegInf PosInf = True"
| "f64_le (Finite x) PosInf = True"
| "f64_le PosInf PosInf = True"
| "f64_le _ _ = False"

definition f64_gt :: "float64 \<Rightarrow> float64 \<Rightarrow> bool" where
  "f64_gt a b = f64_lt b a"

definition isNaN :: "float64 \<Rightarrow> bool" where
  "isNaN a = (case a of NaN \<Rightarrow> True | _ \<Rightarrow> False)"

text \<open>
  Strings are byte strings, in UTF-8 where they hold text. \<^verbatim>\<open>strings.TrimSpace\<close>
  removes the leading and the trailing white space, as \<^verbatim>\<open>unicode.IsSpace\<close> defines it:
  the six ASCII bytes tab, line feed, vertical tab, form feed, carriage return and space; the
  code points U+0085 and U+00A0, two bytes each in UTF-8; and U+1680, U+2000 to U+200A,
  U+2028, U+2029, U+202F, U+205F and U+3000, three bytes each. A byte that starts no valid
  encoding decodes to U+FFFD, which is not white space, so these encodings and nothing else
  are removed, first from the left, then from the right.
\<close>

definition space1 :: "char \<Rightarrow> bool" where
  "space1 a = (a = CHR 0x09 \<or> a = CHR 0x0A \<or> a = CHR 0x0B \<or> a = CHR 0x0C
                \<or> a = CHR 0x0D \<or> a = CHR 0x20)"

definition space2 :: "char \<Rightarrow> char \<Rightarrow> bool" where
  "space2 a b = (a = CHR 0xC2 \<and> (b = CHR 0x85 \<or> b = CHR 0xA0))"

definition space3 :: "char \<Rightarrow> char \<Rightarrow> char \<Rightarrow> bool" where
  "space3 a b c =
     ((a = CHR 0xE1 \<and> b = CHR 0x9A \<and> c = CHR 0x80)
      \<or> (a = CHR 0xE2 \<and> b = CHR 0x80
           \<and> ((128 \<le> (of_char c :: nat) \<and> (of_char c :: nat) \<le> 138)
                \<or> c = CHR 0xA8 \<or> c = CHR 0xA9 \<or> c = CHR 0xAF))
      \<or> (a = CHR 0xE2 \<and> b = CHR 0x81 \<and> c = CHR 0x9F)
      \<or> (a = CHR 0xE3 \<and> b = CHR 0x80 \<and> c = CHR 0x80))"

fun TrimLeft :: "string \<Rightarrow> string" where
  "TrimLeft (a # b # c # s) =
     (if space1 a then TrimLeft (b # c # s)
      else if space2 a b then TrimLeft (c # s)
      else if space3 a b c then TrimLeft s
      else a # b # c # s)"
| "TrimLeft [a, b] = (if space1 a then TrimLeft [b] else if space2 a b then [] else [a, b])"
| "TrimLeft [a] = (if space1 a then [] else [a])"
| "TrimLeft [] = []"

text \<open>The same from the right, on the reversed string: \<open>c\<close> is the last byte.\<close>

fun TrimRight_rev :: "string \<Rightarrow> string" where
  "TrimRight_rev (c # b # a # s) =
     (if space1 c then TrimRight_rev (b # a # s)
      else if space2 b c then TrimRight_rev (a # s)
      else if space3 a b c then TrimRight_rev s
      else c # b # a # s)"
| "TrimRight_rev [c, b] = (if space1 c then TrimRight_rev [b] else if space2 b c then [] else [c, b])"
| "TrimRight_rev [c] = (if space1 c then [] else [c])"
| "TrimRight_rev [] = []"

definition TrimSpace :: "string \<Rightarrow> string" where
  "TrimSpace s = rev (TrimRight_rev (rev (TrimLeft s)))"

text \<open>
  \<^verbatim>\<open>strings.ToUpper\<close> maps the bytes \<^verbatim>\<open>a\<close>..\<^verbatim>\<open>z\<close> to \<^verbatim>\<open>A\<close>..\<^verbatim>\<open>Z\<close> when every
  byte of the string is below \<^verbatim>\<open>0x80\<close>. On any other string it returns
  \<^verbatim>\<open>strings.Map(unicode.ToUpper, s)\<close>, which decodes the string and maps each code point
  through the case tables of Go's \<^verbatim>\<open>unicode\<close> package. Those tables are not part of the
  repository: the mapping of a non-ASCII string is the parameter \<open>unicode_upper\<close>.
\<close>

definition isASCII :: "char \<Rightarrow> bool" where
  "isASCII c = ((of_char c :: nat) < 128)"

definition isLower :: "char \<Rightarrow> bool" where
  "isLower c = (97 \<le> (of_char c :: nat) \<and> (of_char c :: nat) \<le> 122)"

definition toUpperByte :: "char \<Rightarrow> char" where
  "toUpperByte c = (if isLower c then char_of ((of_char c :: nat) - 32) else c)"

definition ToUpper :: "(string \<Rightarrow> string) \<Rightarrow> string \<Rightarrow> string" where
  "ToUpper unicode_upper s =
     (if list_all isASCII s then map toUpperByte s else unicode_upper s)"

definition isUpperCase :: "string \<Rightarrow> bool" where
  "isUpperCase s = list_all (\<lambda>c. \<not> isLower c) s"

subsection \<open>Data model\<close>

type_synonym error = string

text \<open>\<^verbatim>\<open>providers.Hotel\<close>: a hotel as a provider reports it.\<close>

record providers_Hotel =
  pHotelID :: string
  pName :: string
  pCity :: string
  pCurrency :: string
  pPrice :: float64
  pNights :: int

text \<open>\<^verbatim>\<open>types.Hotel\<close>: a normalized hotel.\<close>

record Hotel =
  HotelID :: string
  Name :: string
  Currency :: string
  Price :: float64

text \<open>\<^verbatim>\<open>types.Result\<close>: the aggregated search result.\<close>

record Result =
  Hotels :: "Hotel list"
  ProvidersTotal :: nat
  ProvidersSucceeded :: nat
  ProvidersFailed :: nat

text \<open>
  What the pipeline takes from Go's library and runtime beyond the code modelled here:
  the case mapping of non-ASCII strings (see \<open>ToUpper\<close>); the order in which \<^verbatim>\<open>range\<close>
  visits the values of a map, as a rearrangement of the values in insertion order; and the
  sorting routine that \<^verbatim>\<open>sort.Slice\<close> runs on more than twelve elements.
\<close>

record go_library =
  Map_ToUpper :: "string \<Rightarrow> string"
  range_map :: "Hotel list \<Rightarrow> Hotel list"
  pdqsort_func :: "(Hotel \<Rightarrow> Hotel \<Rightarrow> bool) \<Rightarrow> Hotel list \<Rightarrow> Hotel list"

subsection \<open>Normalizer\<close>

text \<open>\<^verbatim>\<open>normalizeHotel\<close>; the \<^verbatim>\<open>nil\<close> result is \<open>None\<close>.\<close>

definition normalizeHotel :: "go_library \<Rightarrow> providers_Hotel \<Rightarrow> Hotel option" where
  "normalizeHotel lib h =
     (let hotelID = TrimSpace (pHotelID h) in
      if hotelID = [] then None
      else let name = TrimSpace (pName h) in
        if name = [] then None
        else if f64_le (pPrice h) (Finite 0) then None
        else let currency = ToUpper (Map_ToUpper lib) (TrimSpace (pCurrency h));
                 currency = (if currency = [] then ''EUR'' else currency)
             in Some \<lparr>HotelID = hotelID, Name = name, Currency = currency,
                       Price = pPrice h\<rparr>)"

subsection \<open>Aggregator\<close>

text \<open>
  The shared variables of \<^verbatim>\<open>Aggregator.Search\<close>. \<^verbatim>\<open>hotelMap\<close> is an association
  list with distinct keys, in insertion order. The counters are bounded by the number of
  providers, so they never overflow Go's \<^verbatim>\<open>int\<close>.
\<close>

type_synonym hotel_map = "(string \<times> Hotel) list"

record agg_state =
  hotelMap :: hotel_map
  succeeded :: nat
  failed :: nat
  errors :: "error list"

definition agg_init :: agg_state where
  "agg_init = \<lparr>hotelMap = [], succeeded = 0, failed = 0, errors = []\<rparr>"

text \<open>Dedup by hotel id, keep the lowest price: the body of the loop over one hotel.\<close>

definition merge_hotel :: "hotel_map \<Rightarrow> Hotel \<Rightarrow> hotel_map" where
  "merge_hotel m normalized =
     (case map_of m (HotelID normalized) of
        Some existing \<Rightarrow>
          if f64_lt (Price normalized) (Price existing)
          then AList.update (HotelID normalized) normalized m else m
      | None \<Rightarrow> AList.update (HotelID normalized) normalized m)"

definition absorb_hotel :: "go_library \<Rightarrow> hotel_map \<Rightarrow> providers_Hotel \<Rightarrow> hotel_map" where
  "absorb_hotel lib m h =
     (case normalizeHotel lib h of None \<Rightarrow> m | Some normalized \<Rightarrow> merge_hotel m normalized)"

text \<open>
  One provider's unit of work, from the return of \<^verbatim>\<open>provider.Search\<close> on. The provider
  returns a pair \<open>(hotels, err)\<close>. Either branch runs under the mutex, so the units take
  effect one after the other, in the order in which they acquire it.
\<close>

type_synonym outcome = "providers_Hotel list \<times> error option"

definition unit_settles :: "go_library \<Rightarrow> agg_state \<Rightarrow> outcome \<Rightarrow> agg_state" where
  "unit_settles lib st out =
     (case snd out of
        Some err \<Rightarrow> st\<lparr>failed := failed st + 1, errors := errors st @ [err]\<rparr>
      | None \<Rightarrow> st\<lparr>succeeded := succeeded st + 1,
                     hotelMap := foldl (absorb_hotel lib) (hotelMap st) (fst out)\<rparr>)"

text \<open>
  \<^verbatim>\<open>sort.Slice\<close> belongs to Go's library. On a slice of at most twelve elements it is
  an insertion sort (\<^verbatim>\<open>insertionSortLessFunc\<close>): element \<open>i\<close> is swapped to the left while
  it is less than its left neighbour; \<open>sink\<close> inserts into the already sorted prefix, held in
  reverse. On a longer slice it runs the pattern-defeating quicksort of the library, the
  parameter \<open>pdqsort\<close>.
\<close>

fun sink :: "('a \<Rightarrow> 'a \<Rightarrow> bool) \<Rightarrow> 'a \<Rightarrow> 'a list \<Rightarrow> 'a list" where
  "sink lt x [] = [x]"
| "sink lt x (y # ys) = (if lt x y then y # sink lt x ys else x # y # ys)"

definition insertionSort :: "('a \<Rightarrow> 'a \<Rightarrow> bool) \<Rightarrow> 'a list \<Rightarrow> 'a list" where
  "insertionSort lt xs = rev (foldl (\<lambda>acc x. sink lt x acc) [] xs)"

definition sort_Slice ::
  "(('a \<Rightarrow> 'a \<Rightarrow> bool) \<Rightarrow> 'a list \<Rightarrow> 'a list) \<Rightarrow> ('a \<Rightarrow> 'a \<Rightarrow> bool) \<Rightarrow> 'a list \<Rightarrow> 'a list" where
  "sort_Slice pdqsort lt xs = (if length xs \<le> 12 then insertionSort lt xs else pdqsort lt xs)"

definition price_less :: "Hotel \<Rightarrow> Hotel \<Rightarrow> bool" where
  "price_less a b = f64_lt (Price a) (Price b)"

text \<open>
  \<^verbatim>\<open>Aggregator.Search\<close> after \<^verbatim>\<open>wg.Wait()\<close>. The argument \<open>outcomes\<close> lists what
  each provider returned, in the order in which the units took the mutex; its length is
  \<^verbatim>\<open>len(a.providers)\<close>.
\<close>

definition Search :: "go_library \<Rightarrow> outcome list \<Rightarrow> error + Result" where
  "Search lib outcomes =
     (let st = foldl (unit_settles lib) agg_init outcomes in
      if errors st \<noteq> [] \<and> failed st = length outcomes then Inl (hd (errors st))
      else Inr \<lparr>Hotels = sort_Slice (pdqsort_func lib) price_less
                           (range_map lib (map snd (hotelMap st))),
                ProvidersTotal = length outcomes,
                ProvidersSucceeded = succeeded st,
                ProvidersFailed = failed st\<rparr>)"

definition is_failure :: "outcome \<Rightarrow> bool" where
  "is_failure out = (snd out \<noteq> None)"

text \<open>
  What the normalizer establishes for every hotel it lets through, and the sequence of the
  normalized hotels that arrive from the successful units, in their order of arrival.
\<close>

definition valid_hotel :: "Hotel \<Rightarrow> bool" where
  "valid_hotel h = (HotelID h \<noteq> [] \<and> Name h \<noteq> [] \<and> Currency h \<noteq> []
      \<and> \<not> f64_le (Price h) (Finite 0))"

definition arrivals :: "go_library \<Rightarrow> outcome list \<Rightarrow> Hotel list" where
  "arrivals lib outs = concat (map (\<lambda>out. if is_failure out then []
                                   else List.map_filter (normalizeHotel lib) (fst out)) outs)"

text \<open>
  The contract of the library that the properties of the merged hotels rest on: iterating
  over a map visits every value once, and sorting rearranges the slice.
\<close>

definition permutes :: "go_library \<Rightarrow> bool" where
  "permutes lib = ((\<forall>xs. mset (range_map lib xs) = mset xs)
      \<and> (\<forall>lt xs. mset (pdqsort_func lib lt xs) = mset xs))"

text \<open>
  Specification predicates for the merge: \<open>kept xs h\<close> says that \<open>h\<close> is the first of the
  cheapest entries of its hotel id in the sequence \<open>xs\<close>; \<open>merged xs m\<close> says that the
  map \<open>m\<close> holds one entry of \<open>xs\<close> for each hotel id of \<open>xs\<close>.
\<close>

definition kept :: "Hotel list \<Rightarrow> Hotel \<Rightarrow> bool" where
  "kept xs h = (\<exists>as bs. xs = as @ h # bs
      \<and> (\<forall>a\<in>set as. HotelID a = HotelID h \<longrightarrow> f64_lt (Price h) (Price a))
      \<and> (\<forall>b\<in>set bs. HotelID b = HotelID h \<longrightarrow> f64_le (Price h) (Price b)))"

definition merged :: "Hotel list \<Rightarrow> hotel_map \<Rightarrow> bool" where
  "merged xs m = (distinct (map fst m) \<and> fst ` set m = HotelID ` set xs
      \<and> (\<forall>k h. map_of m k = Some h \<longrightarrow> HotelID h = k \<and> h \<in> set xs))"

text \<open>
  For the scenarios evaluated below: a library that iterates over a map in the given
  \<open>order\<close>. The scenarios have ASCII currencies and at most twelve hotels, so the two
  other fields are never consulted; they hold the identity and the insertion sort. Then the
  shorthands for the hotels of the scenarios.
\<close>

definition iterating :: "(Hotel list \<Rightarrow> Hotel list) \<Rightarrow> go_library" where
  "iterating order = \<lparr>Map_ToUpper = (\<lambda>s. s), range_map = order, pdqsort_func = insertionSort\<rparr>"

definition raw_hotel :: "string \<Rightarrow> string \<Rightarrow> string \<Rightarrow> float64 \<Rightarrow> providers_Hotel" where
  "raw_hotel i n c p = \<lparr>pHotelID = i, pName = n, pCity = ''paris'', pCurrency = c, pPrice = p, pNights = 2\<rparr>"

definition hotel :: "string \<Rightarrow> string \<Rightarrow> string \<Rightarrow> float64 \<Rightarrow> Hotel" where
  "hotel i n c p = \<lparr>HotelID = i, Name = n, Currency = c, Price = p\<rparr>"

subsection \<open>Rate limiter\<close>

text \<open>
  \<^verbatim>\<open>ratelimit.Limiter\<close>. A \<^verbatim>\<open>time.Time\<close> is a reading of the monotonic clock, in
  nanoseconds; two readings of one process are less than \<open>2\<^sup>6\<^sup>3\<close> nanoseconds apart, so
  \<^verbatim>\<open>now.Sub\<close> is their exact difference. The window is a \<^verbatim>\<open>time.Duration\<close> that the
  caller chooses, any \<^verbatim>\<open>int64\<close>: arithmetic on it wraps around, which \<open>wrap64\<close> writes out.
\<close>

definition wrap64 :: "int \<Rightarrow> int" where
  "wrap64 x = (x + 9223372036854775808) mod 18446744073709551616 - 9223372036854775808"

record bucket =
  tokens :: int
  lastReset :: int

record Limiter =
  buckets :: "string \<rightharpoonup> bucket"
  rate :: int
  window :: int

definition New :: "int \<Rightarrow> int \<Rightarrow> Limiter" where
  "New r w = \<lparr>buckets = Map.empty, rate = r, window = w\<rparr>"

text \<open>
  \<^verbatim>\<open>Limiter.Allow\<close>, with the clock reading \<open>now\<close> that the call takes under the mutex.
  The bucket is held by pointer, so the map sees every assignment to it.
\<close>

definition Allow :: "Limiter \<Rightarrow> int \<Rightarrow> string \<Rightarrow> Limiter \<times> bool" where
  "Allow l now key =
     (let b = (case buckets l key of
                 None \<Rightarrow> \<lparr>tokens = rate l, lastReset = now\<rparr>
               | Some b \<Rightarrow> b);
          b = (if now - lastReset b \<ge> window l
               then \<lparr>tokens = rate l, lastReset = now\<rparr> else b)
      in if tokens b > 0
         then (l\<lparr>buckets := (buckets l)(key \<mapsto> b\<lparr>tokens := tokens b - 1\<rparr>)\<rparr>, True)
         else (l\<lparr>buckets := (buckets l)(key \<mapsto> b)\<rparr>, False))"

text \<open>
  One tick of \<^verbatim>\<open>Limiter.cleanup\<close>: buckets inactive for twice the window are removed.
  The product \<^verbatim>\<open>2*l.window\<close> is computed in \<^verbatim>\<open>int64\<close>.
\<close>

definition cleanup_tick :: "Limiter \<Rightarrow> int \<Rightarrow> Limiter" where
  "cleanup_tick l now =
     l\<lparr>buckets := (\<lambda>key. case buckets l key of
                         None \<Rightarrow> None
                       | Some b \<Rightarrow> if now - lastReset b > wrap64 (2 * window l) then None
                                  else Some b)\<rparr>"

text \<open>
  A history of a limiter: calls of \<^verbatim>\<open>Allow\<close> and ticks of the sweeper, each with its
  clock reading, in the order in which they hold the mutex. \<open>run\<close> returns the final limiter
  and, for each call of \<^verbatim>\<open>Allow\<close>, its time, key and result and the start of the window
  (\<^verbatim>\<open>lastReset\<close>) that the call left in the bucket.
\<close>

datatype op = AllowCall string | CleanupTick

record entry =
  e_time :: int
  e_key :: string
  e_ok :: bool
  e_start :: int

fun run :: "Limiter \<Rightarrow> (int \<times> op) list \<Rightarrow> Limiter \<times> entry list" where
  "run l [] = (l, [])"
| "run l ((now, AllowCall key) # ops) =
     (let (l', ok) = Allow l now key;
          start = (case buckets l' key of None \<Rightarrow> now | Some b \<Rightarrow> lastReset b);
          (l'', log) = run l' ops
      in (l'', \<lparr>e_time = now, e_key = key, e_ok = ok, e_start = start\<rparr> # log))"
| "run l ((now, CleanupTick) # ops) = run (cleanup_tick l now) ops"

text \<open>
  The calls for key \<open>k\<close> in such a log that returned true at a time in \<open>[lo, lo + w)\<close>,
  and those that returned true under the window start \<open>s\<close>.
\<close>

definition in_window :: "int \<Rightarrow> int \<Rightarrow> string \<Rightarrow> entry \<Rightarrow> bool" where
  "in_window lo w k e = (e_key e = k \<and> e_ok e \<and> lo \<le> e_time e \<and> e_time e < lo + w)"

definition in_epoch :: "int \<Rightarrow> string \<Rightarrow> entry \<Rightarrow> bool" where
  "in_epoch s k e = (e_key e = k \<and> e_ok e \<and> e_start e = s)"

text \<open>
  For the proofs: the range of \<^verbatim>\<open>tokens\<close>; the effect of \<^verbatim>\<open>Allow\<close> on the bucket
  of its key alone; and two budgets that a history can still spend from a given bucket when
  no later clock reading is below \<open>T\<close>: \<open>capB\<close> bounds the calls still to be allowed at
  a time in \<open>[lo, lo + w)\<close>, \<open>capA\<close> those still to be allowed under the window start
  \<open>s\<close>.
\<close>

definition tokens_in_range :: "Limiter \<Rightarrow> bool" where
  "tokens_in_range l = (\<forall>key b. buckets l key = Some b \<longrightarrow>
      min 0 (rate l) \<le> tokens b \<and> tokens b \<le> rate l)"

definition allow_bucket :: "int \<Rightarrow> int \<Rightarrow> int \<Rightarrow> bucket option \<Rightarrow> bucket \<times> bool" where
  "allow_bucket r w now bo =
     (let b = (case bo of None \<Rightarrow> \<lparr>tokens = r, lastReset = now\<rparr> | Some b \<Rightarrow> b);
          b = (if now - lastReset b \<ge> w then \<lparr>tokens = r, lastReset = now\<rparr> else b)
      in if tokens b > 0 then (b\<lparr>tokens := tokens b - 1\<rparr>, True) else (b, False))"

definition capB :: "int \<Rightarrow> int \<Rightarrow> int \<Rightarrow> int \<Rightarrow> bucket option \<Rightarrow> nat" where
  "capB r w lo T bo =
     (if lo + w \<le> T then 0
      else case bo of
             None \<Rightarrow> if lo \<le> T then nat r else 2 * nat r
           | Some b \<Rightarrow> if lo \<le> lastReset b then nat (tokens b)
                      else if lo \<le> T then nat (tokens b) + nat r else 2 * nat r)"

definition capA :: "int \<Rightarrow> int \<Rightarrow> int \<Rightarrow> bucket option \<Rightarrow> nat" where
  "capA r s T bo =
     (case bo of
        None \<Rightarrow> if T \<le> s then nat r else 0
      | Some b \<Rightarrow> if lastReset b = s then nat (tokens b)
                 else if lastReset b < s then nat r else 0)"

subsection \<open>Validated search parameters and the cache key\<close>

definition isDigit :: "char \<Rightarrow> bool" where
  "isDigit c = (48 \<le> (of_char c :: nat) \<and> (of_char c :: nat) \<le> 57)"

definition digitVal :: "char \<Rightarrow> nat" where
  "digitVal c = of_char c - 48"

text \<open>The value of a string of decimal digits, and the decimal digits of a number.\<close>

definition decimalVal :: "string \<Rightarrow> nat" where
  "decimalVal ds = foldl (\<lambda>a c. 10 * a + digitVal c) 0 ds"

fun decimal :: "nat \<Rightarrow> string" where
  "decimal n = (if n < 10 then [char_of (48 + n)]
                else decimal (n div 10) @ [char_of (48 + n mod 10)])"

text \<open>The verb \<^verbatim>\<open>%d\<close> of \<^verbatim>\<open>fmt.Sprintf\<close> on an \<^verbatim>\<open>int\<close>.\<close>

definition fmt_d :: "int \<Rightarrow> string" where
  "fmt_d i = (if i < 0 then CHR ''-'' # decimal (nat (- i)) else decimal (nat i))"

text \<open>
  \<^verbatim>\<open>strconv.Atoi\<close>: an optional sign, then one or more decimal digits, and a value in the
  range of a 64-bit \<^verbatim>\<open>int\<close>; \<open>None\<close> is the error.
\<close>

definition Atoi :: "string \<Rightarrow> int option" where
  "Atoi s =
     (let neg = (s \<noteq> [] \<and> hd s = CHR ''-'');
          ds = (if s \<noteq> [] \<and> (hd s = CHR ''-'' \<or> hd s = CHR ''+'') then tl s else s)
      in if ds = [] \<or> \<not> list_all isDigit ds then None
         else let v = (if neg then - int (decimalVal ds) else int (decimalVal ds))
              in if v < - (2 ^ 63) \<or> 2 ^ 63 - 1 < v then None else Some v)"

text \<open>
  \<^verbatim>\<open>time.Parse("2006-01-02", s)\<close> succeeds on exactly four digits, a hyphen, two digits,
  a hyphen and two digits that name a month from 1 to 12 and a day of that month.
\<close>

definition isLeap :: "nat \<Rightarrow> bool" where
  "isLeap y = (y mod 4 = 0 \<and> (y mod 100 \<noteq> 0 \<or> y mod 400 = 0))"

definition daysIn :: "nat \<Rightarrow> nat \<Rightarrow> nat" where
  "daysIn m y = (if m = 2 then (if isLeap y then 29 else 28)
                 else if m = 4 \<or> m = 6 \<or> m = 9 \<or> m = 11 then 30 else 31)"

definition parses_as_date :: "string \<Rightarrow> bool" where
  "parses_as_date s =
     (length s = 10 \<and> list_all isDigit (take 4 s) \<and> s ! 4 = CHR ''-''
      \<and> list_all isDigit (take 2 (drop 5 s)) \<and> s ! 7 = CHR ''-''
      \<and> list_all isDigit (drop 8 s)
      \<and> (let y = decimalVal (take 4 s); m = decimalVal (take 2 (drop 5 s));
              d = decimalVal (drop 8 s)
          in 1 \<le> m \<and> m \<le> 12 \<and> 1 \<le> d \<and> d \<le> daysIn m y))"

text \<open>\<^verbatim>\<open>SearchParams\<close> and \<^verbatim>\<open>ParseSearchParams\<close>; \<open>query\<close> holds what
  \<^verbatim>\<open>query.Get\<close> returns for the four parameters (the empty string when one is absent).\<close>

record SearchParams =
  City :: string
  Checkin :: string
  Nights :: int
  Adults :: int

record query =
  q_city :: string
  q_checkin :: string
  q_nights :: string
  q_adults :: string

definition ParseSearchParams :: "query \<Rightarrow> string + SearchParams" where
  "ParseSearchParams q =
     (let city = TrimSpace (q_city q) in
      if city = [] then Inl ''city is required''
      else let checkin = TrimSpace (q_checkin q) in
        if checkin = [] then Inl ''checkin is required''
        else if \<not> parses_as_date checkin then Inl ''checkin must be in YYYY-MM-DD format''
        else if q_nights q = [] then Inl ''nights is required''
        else case Atoi (q_nights q) of
          None \<Rightarrow> Inl ''nights must be a positive integer''
        | Some nights \<Rightarrow>
            if nights \<le> 0 then Inl ''nights must be a positive integer''
            else if q_adults q = [] then Inl ''adults is required''
            else case Atoi (q_adults q) of
              None \<Rightarrow> Inl ''adults must be a positive integer''
            | Some adults \<Rightarrow>
                if adults \<le> 0 then Inl ''adults must be a positive integer''
                else Inr \<lparr>City = city, Checkin = checkin, Nights = nights, Adults = adults\<rparr>)"

text \<open>\<^verbatim>\<open>Cache.Key\<close>: \<^verbatim>\<open>fmt.Sprintf("%s:%s:%d:%d", city, checkin, nights, adults)\<close>.\<close>

definition Key :: "string \<Rightarrow> string \<Rightarrow> int \<Rightarrow> int \<Rightarrow> string" where
  "Key city checkin nights adults =
     city @ '':'' @ checkin @ '':'' @ fmt_d nights @ '':'' @ fmt_d adults"

declare decimal.simps [simp del]

subsection \<open>Cache with request collapsing\<close>

text \<open>
  \<^verbatim>\<open>cache.Cache\<close>. A \<^verbatim>\<open>*search.Result\<close> is a \<open>Result option\<close>, \<open>None\<close> for
  \<^verbatim>\<open>nil\<close>. The in-flight requests are shared by pointer between the leader and its
  waiters, also after the leader has removed the pointer from the map: they live in a store
  from addresses to requests, and \<open>ir_done\<close> says that the channel \<^verbatim>\<open>done\<close> is closed.
\<close>

record cacheEntry =
  ce_result :: "Result option"
  expiresAt :: int

record inflightRequest =
  ir_done :: bool
  ir_result :: "Result option"
  ir_err :: "error option"

record Cache =
  entries :: "string \<rightharpoonup> cacheEntry"
  ttl :: int
  inflight :: "string \<rightharpoonup> nat"

definition NewCache :: "int \<Rightarrow> Cache" where
  "NewCache t = \<lparr>entries = Map.empty, ttl = t, inflight = Map.empty\<rparr>"

text \<open>
  A caller of \<^verbatim>\<open>GetOrFetch\<close> is at one of its program points: before the first critical
  section; running \<^verbatim>\<open>fetch()\<close> as the leader of a request; between the second critical
  section and \<^verbatim>\<open>close(inflight.done)\<close>, holding what \<^verbatim>\<open>fetch()\<close> returned; blocked
  in the \<^verbatim>\<open>select\<close> as a waiter on a request; or returned, with its three results.
\<close>

datatype role = Hit | Leader nat | Waiter nat | Cancelled nat

datatype caller =
    Idle string
  | Fetching string nat
  | Notifying nat "Result option" "error option"
  | Waiting nat
  | Returned role "Result option" bool "error option"

record conf =
  cache :: Cache
  heap :: "nat \<rightharpoonup> inflightRequest"
  next_addr :: nat
  callers :: "caller list"

definition init_conf :: "int \<Rightarrow> conf" where
  "init_conf t = \<lparr>cache = NewCache t, heap = Map.empty, next_addr = 0, callers = []\<rparr>"

text \<open>
  \<open>lookup_fresh\<close> is the test \<^verbatim>\<open>ok && time.Now().Before(entry.expiresAt)\<close>.
  The first critical section of \<^verbatim>\<open>GetOrFetch\<close>, run by caller \<open>i\<close> for \<open>key\<close> with the
  clock reading \<open>now\<close>: a fresh entry is a hit; an in-flight request makes the caller a
  waiter; otherwise the caller allocates a request, registers it and becomes the leader.
\<close>

definition lookup_fresh :: "Cache \<Rightarrow> string \<Rightarrow> int \<Rightarrow> cacheEntry option" where
  "lookup_fresh c key now =
     (case entries c key of
        None \<Rightarrow> None
      | Some entry \<Rightarrow> if now < expiresAt entry then Some entry else None)"

definition GetOrFetch_enter :: "conf \<Rightarrow> nat \<Rightarrow> string \<Rightarrow> int \<Rightarrow> conf" where
  "GetOrFetch_enter s i key now =
     (case lookup_fresh (cache s) key now of
        Some entry \<Rightarrow> s\<lparr>callers := (callers s)[i := Returned Hit (ce_result entry) True None]\<rparr>
      | None \<Rightarrow>
         (case inflight (cache s) key of
            Some a \<Rightarrow> s\<lparr>callers := (callers s)[i := Waiting a]\<rparr>
          | None \<Rightarrow>
              s\<lparr>heap := (heap s)(next_addr s \<mapsto> \<lparr>ir_done = False, ir_result = None, ir_err = None\<rparr>),
                next_addr := Suc (next_addr s),
                cache := (cache s)\<lparr>inflight := (inflight (cache s))(key \<mapsto> next_addr s)\<rparr>,
                callers := (callers s)[i := Fetching key (next_addr s)]\<rparr>))"

text \<open>
  The second critical section, run by the leader \<open>i\<close> of the request at \<open>a\<close> when
  \<^verbatim>\<open>fetch()\<close> has returned \<open>(result, err)\<close>, with the clock reading \<open>now\<close>. The
  leader's pointer is never nil, so the request at \<open>a\<close> exists whenever this runs.
\<close>

definition GetOrFetch_store ::
  "conf \<Rightarrow> nat \<Rightarrow> string \<Rightarrow> nat \<Rightarrow> Result option \<Rightarrow> error option \<Rightarrow> int \<Rightarrow> conf" where
  "GetOrFetch_store s i key a result err now =
     s\<lparr>heap := (case heap s a of None \<Rightarrow> heap s
                | Some r \<Rightarrow> (heap s)(a \<mapsto> r\<lparr>ir_result := result, ir_err := err\<rparr>)),
       cache := (cache s)
         \<lparr>entries := (if err = None \<and> result \<noteq> None
                      then (entries (cache s))(key \<mapsto> \<lparr>ce_result = result,
                                                        expiresAt = now + ttl (cache s)\<rparr>)
                      else entries (cache s)),
          inflight := (inflight (cache s))(key := None)\<rparr>,
       callers := (callers s)[i := Notifying a result err]\<rparr>"

text \<open>\<^verbatim>\<open>close(inflight.done)\<close> and the return of the leader.\<close>

definition GetOrFetch_notify :: "conf \<Rightarrow> nat \<Rightarrow> nat \<Rightarrow> Result option \<Rightarrow> error option \<Rightarrow> conf" where
  "GetOrFetch_notify s i a result err =
     s\<lparr>heap := (case heap s a of None \<Rightarrow> heap s
                | Some r \<Rightarrow> (heap s)(a \<mapsto> r\<lparr>ir_done := True\<rparr>)),
       callers := (callers s)[i := Returned (Leader a) result False err]\<rparr>"

text \<open>\<^verbatim>\<open>Invalidate\<close>, \<^verbatim>\<open>Clear\<close> and one tick of \<^verbatim>\<open>cleanup\<close>.\<close>

definition Invalidate :: "Cache \<Rightarrow> string \<Rightarrow> Cache" where
  "Invalidate c key = c\<lparr>entries := (entries c)(key := None)\<rparr>"

definition Clear :: "Cache \<Rightarrow> Cache" where
  "Clear c = c\<lparr>entries := Map.empty\<rparr>"

definition cache_cleanup_tick :: "Cache \<Rightarrow> int \<Rightarrow> Cache" where
  "cache_cleanup_tick c now =
     c\<lparr>entries := (\<lambda>key. case entries c key of
                         None \<Rightarrow> None
                       | Some entry \<Rightarrow> if expiresAt entry < now then None else Some entry)\<rparr>"

text \<open>
  The events of a cache shared by concurrent callers. Every access to the shared state is
  inside a critical section or ordered by the closing of the channel, so a run is a sequence
  of these events; \<open>step\<close> is \<open>None\<close> when an event cannot happen in a state.
\<close>

datatype event =
    Call string
  | Enter nat int
  | FetchReturns nat "Result option" "error option" int
  | CloseDone nat
  | DoneFires nat
  | CtxDone nat error
  | EvInvalidate string
  | EvClear
  | EvCleanup int

definition step :: "conf \<Rightarrow> event \<Rightarrow> conf option" where
  "step s ev =
     (case ev of
        Call key \<Rightarrow> Some (s\<lparr>callers := callers s @ [Idle key]\<rparr>)
      | Enter i now \<Rightarrow>
          (if i < length (callers s) then
             (case callers s ! i of
                Idle key \<Rightarrow> Some (GetOrFetch_enter s i key now)
              | _ \<Rightarrow> None)
           else None)
      | FetchReturns i result err now \<Rightarrow>
          (if i < length (callers s) then
             (case callers s ! i of
                Fetching key a \<Rightarrow> Some (GetOrFetch_store s i key a result err now)
              | _ \<Rightarrow> None)
           else None)
      | CloseDone i \<Rightarrow>
          (if i < length (callers s) then
             (case callers s ! i of
                Notifying a result err \<Rightarrow> Some (GetOrFetch_notify s i a result err)
              | _ \<Rightarrow> None)
           else None)
      | DoneFires i \<Rightarrow>
          (if i < length (callers s) then
             (case callers s ! i of
                Waiting a \<Rightarrow>
                  (case heap s a of
                     Some r \<Rightarrow> if ir_done r
                               then Some (s\<lparr>callers := (callers s)
                                       [i := Returned (Waiter a) (ir_result r) False (ir_err r)]\<rparr>)
                               else None
                   | None \<Rightarrow> None)
              | _ \<Rightarrow> None)
           else None)
      | CtxDone i cause \<Rightarrow>
          (if i < length (callers s) then
             (case callers s ! i of
                Waiting a \<Rightarrow> Some (s\<lparr>callers := (callers s)
                                       [i := Returned (Cancelled a) None False (Some cause)]\<rparr>)
              | _ \<Rightarrow> None)
           else None)
      | EvInvalidate key \<Rightarrow> Some (s\<lparr>cache := Invalidate (cache s) key\<rparr>)
      | EvClear \<Rightarrow> Some (s\<lparr>cache := Clear (cache s)\<rparr>)
      | EvCleanup now \<Rightarrow> Some (s\<lparr>cache := cache_cleanup_tick (cache s) now\<rparr>))"

fun exec :: "conf \<Rightarrow> event list \<Rightarrow> conf option" where
  "exec s [] = Some s"
| "exec s (ev # evs) = (case step s ev of None \<Rightarrow> None | Some s' \<Rightarrow> exec s' evs)"

text \<open>A successful result without hotels, for the scenarios.\<close>

definition res0 :: Result where
  "res0 = \<lparr>Hotels = [], ProvidersTotal = 2, ProvidersSucceeded = 2, ProvidersFailed = 0\<rparr>"

text \<open>
  For the proofs. \<open>fetching_on key c\<close>: the caller is running \<^verbatim>\<open>fetch\<close> for the key.
  \<open>coherent\<close> collects what holds in every reachable state: a leader's request is the one
  registered for its key; at most one caller per key is fetching; a registered request
  exists and its channel is open; no request is registered twice; addresses below
  \<open>next_addr\<close> only are in use; a leader that has stored, and every returned leader and
  waiter, holds the result and error that its request holds. \<open>inv_led\<close>: the channel of a
  request is closed only when its leader has returned.
\<close>

definition fetching_on :: "string \<Rightarrow> caller \<Rightarrow> bool" where
  "fetching_on key c = (case c of Fetching k a \<Rightarrow> k = key | _ \<Rightarrow> False)"

definition holds :: "conf \<Rightarrow> nat \<Rightarrow> Result option \<Rightarrow> error option \<Rightarrow> bool" where
  "holds s a res err = (\<exists>r. heap s a = Some r \<and> ir_result r = res \<and> ir_err r = err)"

definition done_closed :: "conf \<Rightarrow> nat \<Rightarrow> bool" where
  "done_closed s a = (\<exists>r. heap s a = Some r \<and> ir_done r)"

definition unregistered :: "conf \<Rightarrow> nat \<Rightarrow> bool" where
  "unregistered s a = (\<forall>k. inflight (cache s) k \<noteq> Some a)"

definition caller_ok :: "conf \<Rightarrow> caller \<Rightarrow> bool" where
  "caller_ok s c =
     (case c of
        Fetching k a \<Rightarrow> inflight (cache s) k = Some a
      | Notifying a res err \<Rightarrow> holds s a res err \<and> unregistered s a
      | Returned ro res hit err \<Rightarrow>
          (case ro of
             Leader a \<Rightarrow> holds s a res err \<and> \<not> hit \<and> unregistered s a
           | Waiter a \<Rightarrow> holds s a res err \<and> \<not> hit \<and> done_closed s a
           | _ \<Rightarrow> True)
      | _ \<Rightarrow> True)"

definition inv_callers :: "conf \<Rightarrow> bool" where
  "inv_callers s = (\<forall>c\<in>set (callers s). caller_ok s c)"

definition inv_one :: "conf \<Rightarrow> bool" where
  "inv_one s = (\<forall>k. length (filter (fetching_on k) (callers s)) \<le> 1)"

definition inv_open :: "conf \<Rightarrow> bool" where
  "inv_open s = (\<forall>k a. inflight (cache s) k = Some a \<longrightarrow> heap s a \<noteq> None \<and> \<not> done_closed s a)"

definition inv_inj :: "conf \<Rightarrow> bool" where
  "inv_inj s = (\<forall>k k' a. inflight (cache s) k = Some a \<longrightarrow> inflight (cache s) k' = Some a
                  \<longrightarrow> k = k')"

definition inv_alloc :: "conf \<Rightarrow> bool" where
  "inv_alloc s = (\<forall>a. heap s a \<noteq> None \<longrightarrow> a < next_addr s)"

definition coherent :: "conf \<Rightarrow> bool" where
  "coherent s = (inv_callers s \<and> inv_one s \<and> inv_open s \<and> inv_inj s \<and> inv_alloc s)"

definition inv_led :: "conf \<Rightarrow> bool" where
  "inv_led s = (\<forall>a. done_closed s a \<longrightarrow> (\<exists>res err. Returned (Leader a) res False err \<in> set (callers s)))"

section \<open>Properties of the aggregator\<close>

lemma unit_settles_counts:
  "succeeded (unit_settles lib st out) + failed (unit_settles lib st out) = succeeded st + failed st + 1"
  by (simp add: unit_settles_def split: option.split)

lemma foldl_unit_settles_counts:
  "succeeded (foldl (unit_settles lib) st outs) + failed (foldl (unit_settles lib) st outs)
     = succeeded st + failed st + length outs"
  by (induction outs arbitrary: st) (simp_all add: unit_settles_counts)

lemma unit_settles_failed:
  "failed (unit_settles lib st out) = failed st + (if is_failure out then 1 else 0)"
  by (simp add: unit_settles_def is_failure_def split: option.split)

lemma foldl_unit_settles_failed:
  "failed (foldl (unit_settles lib) st outs) = failed st + length (filter is_failure outs)"
  by (induction outs arbitrary: st) (simp_all add: unit_settles_failed)

lemma foldl_unit_settles_succeeded:
  "succeeded (foldl (unit_settles lib) st outs)
     = succeeded st + length (filter (\<lambda>out. \<not> is_failure out) outs)"
  by (induction outs arbitrary: st)
     (simp_all add: unit_settles_def is_failure_def split: option.split)

text \<open>
  Claim C5. Whenever \<^verbatim>\<open>Aggregator.Search\<close> returns a result, whatever the providers
  returned and in whatever order their units settled, the counts of the result satisfy
  \<open>ProvidersSucceeded + ProvidersFailed = ProvidersTotal\<close>, and \<open>ProvidersTotal\<close> is the
  number of configured providers.
\<close>

theorem Search_counts:
  "Search lib outcomes = Inr r \<Longrightarrow>
     ProvidersSucceeded r + ProvidersFailed r = ProvidersTotal r
     \<and> ProvidersTotal r = length outcomes
     \<and> ProvidersFailed r = length (filter is_failure outcomes)
     \<and> ProvidersSucceeded r = length (filter (\<lambda>out. \<not> is_failure out) outcomes)"
proof -
  assume a: "Search lib outcomes = Inr r"
  let ?st = "foldl (unit_settles lib) agg_init outcomes"
  have r: "ProvidersTotal r = length outcomes" "ProvidersSucceeded r = succeeded ?st"
    "ProvidersFailed r = failed ?st"
    using a by (auto simp: Search_def Let_def split: if_splits)
  have "succeeded ?st + failed ?st = length outcomes"
    using foldl_unit_settles_counts [of lib agg_init outcomes] by (simp add: agg_init_def)
  moreover have "failed ?st = length (filter is_failure outcomes)"
    using foldl_unit_settles_failed [of lib agg_init outcomes] by (simp add: agg_init_def)
  moreover have "succeeded ?st = length (filter (\<lambda>out. \<not> is_failure out) outcomes)"
    using foldl_unit_settles_succeeded [of lib agg_init outcomes] by (simp add: agg_init_def)
  ultimately show ?thesis using r by simp
qed

theorem Search_counts_witness:
  "Search (iterating id) [([\<lparr>pHotelID = ''H001'', pName = ''Hotel A'', pCity = ''paris'',
                  pCurrency = ''eur'', pPrice = Finite 100, pNights = 2\<rparr>], None),
              ([], Some ''provider unavailable'')]
     = Inr \<lparr>Hotels = [\<lparr>HotelID = ''H001'', Name = ''Hotel A'', Currency = ''EUR'',
                         Price = Finite 100\<rparr>],
             ProvidersTotal = 2, ProvidersSucceeded = 1, ProvidersFailed = 1\<rparr>
   \<and> (1::nat) + 1 = 2"
proof -
  let ?outs = "[([\<lparr>pHotelID = ''H001'', pName = ''Hotel A'', pCity = ''paris'',
                  pCurrency = ''eur'', pPrice = Finite 100, pNights = 2\<rparr>], None),
              ([], Some ''provider unavailable'')]"
  let ?r = "\<lparr>Hotels = [\<lparr>HotelID = ''H001'', Name = ''Hotel A'', Currency = ''EUR'',
                         Price = Finite 100\<rparr>],
             ProvidersTotal = 2, ProvidersSucceeded = 1, ProvidersFailed = 1\<rparr>"
  have h: "Search (iterating id) ?outs = Inr ?r" by code_simp
  from Search_counts [OF h] have "ProvidersSucceeded ?r + ProvidersFailed ?r = ProvidersTotal ?r"
    by blast
  then show ?thesis using h by simp
qed

subsection \<open>Helper lemmas: normalizer, merge, sort\<close>

lemma toUpperByte_not_lower: "\<not> isLower (toUpperByte c)"
proof (cases "isLower c")
  case True
  then have "(of_char c - 32 :: nat) mod 256 < 97"
    unfolding isLower_def by arith
  with True show ?thesis by (simp add: toUpperByte_def isLower_def)
next
  case False
  then show ?thesis by (simp add: toUpperByte_def)
qed

lemma isUpperCase_ToUpper: "list_all isASCII s \<Longrightarrow> isUpperCase (ToUpper up s)"
  by (simp add: isUpperCase_def ToUpper_def list_all_iff toUpperByte_not_lower)

lemma normalizeHotel_valid: "normalizeHotel lib raw = Some h \<Longrightarrow> valid_hotel h"
  by (auto simp: normalizeHotel_def valid_hotel_def Let_def split: if_splits)

lemma normalizeHotel_upper:
  assumes "normalizeHotel lib raw = Some h" "list_all isASCII (TrimSpace (pCurrency raw))"
  shows "isUpperCase (Currency h)"
proof -
  have "isUpperCase ''EUR''" by (simp add: isUpperCase_def isLower_def)
  with assms show ?thesis
    by (auto simp: normalizeHotel_def Let_def isUpperCase_ToUpper split: if_splits)
qed

lemma normalizeHotel_reject: "f64_le (pPrice raw) (Finite 0) \<Longrightarrow> normalizeHotel lib raw = None"
  by (simp add: normalizeHotel_def Let_def)

lemma set_update_subset: "set (AList.update k v al) \<subseteq> insert (k, v) (set al)"
  by (induction al) auto

lemma foldl_absorb: "foldl (absorb_hotel lib) m hs = foldl merge_hotel m (List.map_filter (normalizeHotel lib) hs)"
  by (induction hs arbitrary: m) (auto simp: absorb_hotel_def List.map_filter_simps split: option.splits)

lemma hotelMap_foldl: "hotelMap (foldl (unit_settles lib) st outs) = foldl merge_hotel (hotelMap st) (arrivals lib outs)"
  by (induction outs arbitrary: st) (auto simp: arrivals_def unit_settles_def is_failure_def foldl_absorb split: option.splits)

lemma arrivals_valid: "n \<in> set (arrivals lib outs) \<Longrightarrow> valid_hotel n"
  by (auto simp: arrivals_def List.map_filter_def normalizeHotel_valid split: if_splits)

lemma mset_sink: "mset (sink lt x ys) = add_mset x (mset ys)"
  by (induction ys) auto

lemma mset_insertionSort: "mset (insertionSort lt xs) = mset xs"
proof -
  have "mset (foldl (\<lambda>acc x. sink lt x acc) acc xs) = mset acc + mset xs" for acc
    by (induction xs arbitrary: acc) (auto simp: mset_sink)
  then show ?thesis by (simp add: insertionSort_def)
qed

lemma mset_sort_Slice:
  "\<forall>xs. mset (pdqsort lt xs) = mset xs \<Longrightarrow> mset (sort_Slice pdqsort lt xs) = mset xs"
  by (simp add: sort_Slice_def mset_insertionSort)

lemma permutes_iterating: "\<forall>xs. mset (order xs) = mset xs \<Longrightarrow> permutes (iterating order)"
  by (simp add: permutes_def iterating_def mset_insertionSort)

lemma Search_Inr_Hotels:
  assumes "permutes lib" "Search lib outs = Inr r"
  shows "mset (Hotels r) = mset (map snd (foldl merge_hotel [] (arrivals lib outs)))"
proof -
  let ?vs = "map snd (foldl merge_hotel [] (arrivals lib outs))"
  have "Hotels r = sort_Slice (pdqsort_func lib) price_less (range_map lib ?vs)"
    using assms(2) by (auto simp: Search_def Let_def hotelMap_foldl agg_init_def split: if_splits)
  moreover have "\<forall>xs. mset (pdqsort_func lib price_less xs) = mset xs"
    using assms(1) by (simp add: permutes_def)
  moreover have "mset (range_map lib ?vs) = mset ?vs" using assms(1) by (simp add: permutes_def)
  ultimately show ?thesis by (simp add: mset_sort_Slice)
qed

lemma f64_lt_le_trans: "f64_lt a b \<Longrightarrow> f64_le b c \<Longrightarrow> f64_lt a c"
  by (cases a; cases b; cases c) auto

lemma f64_lt_trans: "f64_lt a b \<Longrightarrow> f64_lt b c \<Longrightarrow> f64_lt a c"
  by (cases a; cases b; cases c) auto

lemma f64_le_trans: "f64_le a b \<Longrightarrow> f64_le b c \<Longrightarrow> f64_le a c"
  by (cases a; cases b; cases c) auto

lemma f64_not_lt: "\<not> isNaN a \<Longrightarrow> \<not> isNaN b \<Longrightarrow> \<not> f64_lt a b \<Longrightarrow> f64_le b a"
  by (cases a; cases b) (auto simp: isNaN_def)

lemma f64_lt_imp_le: "f64_lt a b \<Longrightarrow> f64_le a b"
  by (cases a; cases b) auto

lemma f64_le_refl: "\<not> isNaN a \<Longrightarrow> f64_le a a"
  by (cases a) (auto simp: isNaN_def)

lemma kept_snoc_other: "kept xs h \<Longrightarrow> HotelID x \<noteq> HotelID h \<Longrightarrow> kept (xs @ [x]) h"
  unfolding kept_def
  apply (elim exE conjE)
  subgoal for as bs
    by (rule exI [of _ as], rule exI [of _ "bs @ [x]"]) auto
  done

lemma kept_snoc_ge: "kept xs h \<Longrightarrow> f64_le (Price h) (Price x) \<Longrightarrow> kept (xs @ [x]) h"
  unfolding kept_def
  apply (elim exE conjE)
  subgoal for as bs
    by (rule exI [of _ as], rule exI [of _ "bs @ [x]"]) auto
  done

lemma kept_snoc_new:
  assumes "\<forall>a\<in>set xs. HotelID a = HotelID x \<longrightarrow> f64_lt (Price x) (Price a)"
  shows "kept (xs @ [x]) x"
  unfolding kept_def using assms
  by (intro exI [of _ xs] exI [of _ "[]"]) auto

lemma kept_lower:
  assumes "kept xs e" "HotelID e = HotelID x" "f64_lt (Price x) (Price e)"
  shows "\<forall>a\<in>set xs. HotelID a = HotelID x \<longrightarrow> f64_lt (Price x) (Price a)"
proof -
  from assms(1) obtain as bs where xs: "xs = as @ e # bs"
    and as: "\<forall>a\<in>set as. HotelID a = HotelID e \<longrightarrow> f64_lt (Price e) (Price a)"
    and bs: "\<forall>b\<in>set bs. HotelID b = HotelID e \<longrightarrow> f64_le (Price e) (Price b)"
    unfolding kept_def by blast
  show ?thesis
  proof (intro ballI impI)
    fix a assume "a \<in> set xs" "HotelID a = HotelID x"
    then consider "a \<in> set as" | "a = e" | "a \<in> set bs" using xs by auto
    then show "f64_lt (Price x) (Price a)"
    proof cases
      case 1 with as assms(2,3) \<open>HotelID a = HotelID x\<close> show ?thesis
        by (metis f64_lt_trans)
    next
      case 2 with assms(3) show ?thesis by simp
    next
      case 3 with bs assms(2,3) \<open>HotelID a = HotelID x\<close> show ?thesis
        by (metis f64_lt_le_trans)
    qed
  qed
qed

lemma dom_merge_hotel: "fst ` set (merge_hotel m x) = insert (HotelID x) (fst ` set m)"
proof (cases "map_of m (HotelID x)")
  case None
  then show ?thesis by (simp add: merge_hotel_def dom_update)
next
  case (Some e)
  then have "HotelID x \<in> fst ` set m" by (metis map_of_eq_None_iff option.distinct(1))
  with Some show ?thesis by (auto simp: merge_hotel_def dom_update)
qed

lemma map_of_merge_hotel:
  "map_of (merge_hotel m x) k = Some h \<Longrightarrow> (k = HotelID x \<and> h = x) \<or> map_of m k = Some h"
  by (auto simp: merge_hotel_def update_conv' split: option.splits if_splits)

lemma distinct_merge_hotel: "distinct (map fst m) \<Longrightarrow> distinct (map fst (merge_hotel m x))"
  by (simp add: merge_hotel_def distinct_update split: option.splits)

lemma merged_snoc:
  assumes "merged xs m" shows "merged (xs @ [x]) (merge_hotel m x)"
proof -
  have "\<forall>k h. map_of (merge_hotel m x) k = Some h \<longrightarrow> HotelID h = k \<and> h \<in> set (xs @ [x])"
  proof (intro allI impI)
    fix k h assume "map_of (merge_hotel m x) k = Some h"
    from map_of_merge_hotel [OF this] assms show "HotelID h = k \<and> h \<in> set (xs @ [x])"
      by (auto simp: merged_def)
  qed
  moreover have "fst ` set (merge_hotel m x) = HotelID ` set (xs @ [x])"
    using assms by (simp add: dom_merge_hotel merged_def)
  ultimately show ?thesis using assms distinct_merge_hotel [of m x]
    unfolding merged_def by blast
qed

lemma merged_foldl: "merged xs (foldl merge_hotel [] xs)"
proof (induction xs rule: rev_induct)
  case Nil show ?case by (simp add: merged_def)
next
  case (snoc x xs) then show ?case by (simp add: merged_snoc)
qed

lemma map_of_merge_other: "k \<noteq> HotelID x \<Longrightarrow> map_of (merge_hotel m x) k = map_of m k"
  by (auto simp: merge_hotel_def update_conv' split: option.splits)

lemma kept_foldl:
  assumes "map_of (foldl merge_hotel [] xs) k = Some h"
    and "\<forall>a\<in>set xs. HotelID a = k \<longrightarrow> \<not> isNaN (Price a)"
  shows "kept xs h"
  using assms
proof (induction xs arbitrary: h rule: rev_induct)
  case Nil then show ?case by simp
next
  case (snoc x xs)
  let ?m = "foldl merge_hotel [] xs"
  have m: "merged xs ?m" by (rule merged_foldl)
  have nn: "\<forall>a\<in>set xs. HotelID a = k \<longrightarrow> \<not> isNaN (Price a)" using snoc.prems(2) by simp
  have IH: "\<And>h. map_of ?m k = Some h \<Longrightarrow> kept xs h" using snoc.IH nn by blast
  have res: "map_of (merge_hotel ?m x) k = Some h" using snoc.prems(1) by simp
  show ?case
  proof (cases "k = HotelID x")
    case False
    with res have h: "map_of ?m k = Some h" by (simp add: map_of_merge_other)
    then have "HotelID h = k" using m by (simp add: merged_def)
    with h IH False show ?thesis by (intro kept_snoc_other) auto
  next
    case True
    have nx: "\<not> isNaN (Price x)" using snoc.prems(2) True by simp
    show ?thesis
    proof (cases "map_of ?m (HotelID x)")
      case None
      then have "HotelID x \<notin> HotelID ` set xs" using m
        by (metis merged_def map_of_eq_None_iff)
      then have "\<forall>a\<in>set xs. HotelID a \<noteq> HotelID x" by (metis imageI)
      then have new: "kept (xs @ [x]) x" by (intro kept_snoc_new) simp
      from None res True have "h = x" by (simp add: merge_hotel_def update_conv')
      with new show ?thesis by simp
    next
      case (Some e)
      then have e: "kept xs e" "HotelID e = HotelID x" "e \<in> set xs"
        using IH m True by (auto simp: merged_def)
      show ?thesis
      proof (cases "f64_lt (Price x) (Price e)")
        case lt: True
        then have new: "kept (xs @ [x]) x" using kept_lower [OF e(1,2)] by (intro kept_snoc_new) auto
        from Some lt res True have "h = x" by (simp add: merge_hotel_def update_conv')
        with new show ?thesis by simp
      next
        case ge: False
        with Some res True have "h = e" by (simp add: merge_hotel_def)
        moreover have "\<not> isNaN (Price e)" using nn e(2,3) True by simp
        then have "f64_le (Price e) (Price x)" using ge nx by (intro f64_not_lt) auto
        ultimately show ?thesis using e(1) by (intro kept_snoc_ge) auto
      qed
    qed
  qed
qed

lemma set_sink: "set (sink lt x ys) = insert x (set ys)"
  by (induction ys) auto

lemma sink_sorted:
  assumes "\<forall>a\<in>insert x (set ys). \<not> isNaN (Price a)"
    and "sorted_wrt (\<lambda>a b. f64_le (Price b) (Price a)) ys"
  shows "sorted_wrt (\<lambda>a b. f64_le (Price b) (Price a)) (sink price_less x ys)"
  using assms
proof (induction ys)
  case Nil then show ?case by simp
next
  case (Cons y ys)
  show ?case
  proof (cases "price_less x y")
    case True
    then have "f64_le (Price x) (Price y)" by (simp add: price_less_def f64_lt_imp_le)
    with True Cons show ?thesis by (auto simp: set_sink)
  next
    case False
    then have xy: "f64_le (Price y) (Price x)" using Cons.prems(1)
      by (intro f64_not_lt) (auto simp: price_less_def)
    have "f64_le (Price z) (Price x)" if "z \<in> set ys" for z
      using that Cons.prems(2) xy by (auto intro: f64_le_trans)
    with False xy Cons.prems(2) show ?thesis by auto
  qed
qed

lemma insertionSort_sorted:
  assumes "\<forall>a\<in>set xs. \<not> isNaN (Price a)"
  shows "sorted_wrt (\<lambda>a b. f64_le (Price a) (Price b)) (insertionSort price_less xs)"
proof -
  have "sorted_wrt (\<lambda>a b. f64_le (Price b) (Price a)) (foldl (\<lambda>acc x. sink price_less x acc) acc xs)
        \<and> set (foldl (\<lambda>acc x. sink price_less x acc) acc xs) = set acc \<union> set xs"
    if "\<forall>a\<in>set acc \<union> set xs. \<not> isNaN (Price a)" "sorted_wrt (\<lambda>a b. f64_le (Price b) (Price a)) acc"
    for acc
    using that
  proof (induction xs arbitrary: acc)
    case Nil then show ?case by simp
  next
    case (Cons x xs)
    have "sorted_wrt (\<lambda>a b. f64_le (Price b) (Price a)) (sink price_less x acc)"
      using Cons.prems by (intro sink_sorted) auto
    moreover have "\<forall>a\<in>set (sink price_less x acc) \<union> set xs. \<not> isNaN (Price a)"
      using Cons.prems(1) by (auto simp: set_sink)
    ultimately show ?case using Cons.IH [of "sink price_less x acc"] by (auto simp: set_sink)
  qed
  from this [of "[]"] assms show ?thesis by (simp add: insertionSort_def sorted_wrt_rev)
qed

lemma Search_Inr_sort:
  "Search lib outs = Inr r \<Longrightarrow>
     Hotels r = sort_Slice (pdqsort_func lib) price_less
                  (range_map lib (map snd (foldl merge_hotel [] (arrivals lib outs))))"
  by (auto simp: Search_def Let_def hotelMap_foldl agg_init_def split: if_splits)

lemma errors_foldl:
  "errors (foldl (unit_settles lib) st outs) = errors st @ List.map_filter snd outs"
  by (induction outs arbitrary: st) (auto simp: unit_settles_def split: option.splits)

lemma merged_entry: "merged xs m \<Longrightarrow> (k, h) \<in> set m \<Longrightarrow> HotelID h = k \<and> h \<in> set xs"
proof -
  assume m: "merged xs m" and kh: "(k, h) \<in> set m"
  from m have "distinct (map fst m)" by (simp add: merged_def)
  with kh have "map_of m k = Some h" by simp
  with m show ?thesis unfolding merged_def by blast
qed

lemma merged_ids: "merged xs m \<Longrightarrow> map HotelID (map snd m) = map fst m"
proof -
  assume m: "merged xs m"
  have "HotelID (snd p) = fst p" if "p \<in> set m" for p
    using merged_entry [OF m, of "fst p" "snd p"] that by simp
  then show ?thesis by simp
qed

lemma length_filter_all: "length (filter P xs) = length xs \<longleftrightarrow> list_all P xs"
proof (induction xs)
  case Nil show ?case by simp
next
  case (Cons x xs)
  have "length (filter P xs) \<noteq> Suc (length xs)"
    using length_filter_le [of P xs] by linarith
  with Cons show ?case by auto
qed

subsection \<open>Normalization, failure semantics, dedup and order\<close>

text \<open>
  Claim C1. The normalizer is to reject every hotel whose price is not greater than zero,
  \<open>NaN\<close> included (it is there to drop invalid data), so that every hotel of a result has a
  price greater than zero. The test \<^verbatim>\<open>h.Price <= 0\<close> of \<^verbatim>\<open>normalizeHotel\<close> is false for a
  \<open>NaN\<close> price: such a hotel is not rejected, and it reaches the result of the search with a
  price that is not greater than zero.
\<close>

theorem normalizeHotel_NaN_accepted:
  "normalizeHotel (iterating id) (raw_hotel ''H001'' ''Hotel A'' ''EUR'' NaN)
     = Some (hotel ''H001'' ''Hotel A'' ''EUR'' NaN)
   \<and> \<not> f64_gt NaN (Finite 0)
   \<and> Search (iterating id) [([raw_hotel ''H001'' ''Hotel A'' ''EUR'' NaN], None)]
       = Inr \<lparr>Hotels = [hotel ''H001'' ''Hotel A'' ''EUR'' NaN],
               ProvidersTotal = 1, ProvidersSucceeded = 1, ProvidersFailed = 0\<rparr>"
  by code_simp

text \<open>
  \<open>NaN\<close> is the only price on which the normalizer departs from that: it rejects a hotel
  exactly when the trimmed hotel id or name is empty or the price compares \<open>\<le> 0\<close>, every
  price is \<open>\<le> 0\<close>, \<open>NaN\<close> or greater than zero, and every hotel of a result has a non-empty
  hotel id, name and currency and a price that is \<open>NaN\<close> or greater than zero.
\<close>

lemma normalizeHotel_rejects:
  "normalizeHotel lib raw = None \<longleftrightarrow>
     TrimSpace (pHotelID raw) = [] \<or> TrimSpace (pName raw) = [] \<or> f64_le (pPrice raw) (Finite 0)"
  by (simp add: normalizeHotel_def Let_def)

lemma normalizeHotel_unicode_space:
  "normalizeHotel (iterating id) (raw_hotel [CHR 0xC2, CHR 0xA0] ''Hotel A'' ''EUR'' (Finite 100)) = None
   \<and> normalizeHotel (iterating id)
         (raw_hotel [CHR 0xE2, CHR 0x80, CHR 0x83, CHR ''H'', CHR 0x20] ''Hotel A'' ''eur'' (Finite 100))
       = Some (hotel ''H'' ''Hotel A'' ''EUR'' (Finite 100))"
  by code_simp

lemma f64_sign_cases: "f64_le p (Finite 0) \<or> isNaN p \<or> f64_gt p (Finite 0)"
  by (cases p) (auto simp: isNaN_def f64_gt_def)

lemma valid_hotel_price: "valid_hotel h \<Longrightarrow> isNaN (Price h) \<or> f64_gt (Price h) (Finite 0)"
  using f64_sign_cases [of "Price h"] by (auto simp: valid_hotel_def)

lemma Search_hotels_valid:
  assumes "permutes lib" "Search lib outcomes = Inr r" "h \<in> set (Hotels r)"
  shows "HotelID h \<noteq> [] \<and> Name h \<noteq> [] \<and> Currency h \<noteq> []
       \<and> (isNaN (Price h) \<or> f64_gt (Price h) (Finite 0))"
proof -
  let ?m = "foldl merge_hotel [] (arrivals lib outcomes)"
  have m: "merged (arrivals lib outcomes) ?m" by (rule merged_foldl)
  have "mset (Hotels r) = mset (map snd ?m)" using assms(1,2) by (rule Search_Inr_Hotels)
  with assms(3) have "h \<in> set (map snd ?m)" by (metis set_mset_mset)
  then obtain k where "(k, h) \<in> set ?m" by auto
  then have "h \<in> set (arrivals lib outcomes)" using merged_entry [OF m] by blast
  then have v: "valid_hotel h" by (rule arrivals_valid)
  then show ?thesis using valid_hotel_price [OF v] by (simp add: valid_hotel_def)
qed

text \<open>
  Claim C2, as stated, fails for an aggregator without providers: every provider failed
  (there is none), yet the guard \<^verbatim>\<open>len(errors) > 0\<close> makes the search succeed.
\<close>

theorem Search_no_providers_counterexample:
  "list_all is_failure [] \<and>
   Search (iterating id) []
     = Inr \<lparr>Hotels = [], ProvidersTotal = 0, ProvidersSucceeded = 0, ProvidersFailed = 0\<rparr>"
  by code_simp

text \<open>
  Claim C2, amended. \<^verbatim>\<open>Aggregator.Search\<close> returns an error if and only if there is at
  least one provider and every provider's unit returned an error; the error returned is one
  of the providers' errors, namely the one recorded first, which is the error of the first
  unit to settle. If some provider succeeds, the search succeeds and reports the number of
  failed providers, whatever passed normalization.
\<close>

theorem Search_error_iff_all_failed:
  "((\<exists>e. Search lib outcomes = Inl e) \<longleftrightarrow> outcomes \<noteq> [] \<and> list_all is_failure outcomes)
   \<and> (Search lib outcomes = Inl e \<longrightarrow>
        Some e \<in> snd ` set outcomes \<and> snd (hd outcomes) = Some e)
   \<and> (\<not> list_all is_failure outcomes \<longrightarrow>
        (\<exists>r. Search lib outcomes = Inr r
             \<and> ProvidersFailed r = length (filter is_failure outcomes)))"
proof -
  let ?st = "foldl (unit_settles lib) agg_init outcomes"
  have f: "failed ?st = length (filter is_failure outcomes)"
    using foldl_unit_settles_failed [of lib agg_init outcomes] by (simp add: agg_init_def)
  have e: "errors ?st = List.map_filter snd outcomes"
    using errors_foldl [of lib agg_init outcomes] by (simp add: agg_init_def)
  have allf: "failed ?st = length outcomes \<longleftrightarrow> list_all is_failure outcomes"
    unfolding f by (rule length_filter_all)
  have ne: "errors ?st \<noteq> [] \<longleftrightarrow> (\<exists>out\<in>set outcomes. is_failure out)"
    unfolding e by (auto simp: List.map_filter_def is_failure_def filter_empty_conv)
  have hdfirst: "snd (hd outcomes) = Some (hd (errors ?st))"
    if "errors ?st \<noteq> []" "failed ?st = length outcomes"
  proof -
    from that ne allf have "outcomes \<noteq> []" "list_all is_failure outcomes" by auto
    then obtain out outs x where o: "outcomes = out # outs" "snd out = Some x"
      by (cases outcomes) (auto simp: is_failure_def)
    then have "List.map_filter snd outcomes = x # List.map_filter snd outs"
      by (simp add: List.map_filter_simps)
    with e o show ?thesis by simp
  qed
  have inl: "(\<exists>e. Search lib outcomes = Inl e) \<longleftrightarrow> outcomes \<noteq> [] \<and> list_all is_failure outcomes"
  proof -
    have "(\<exists>e. Search lib outcomes = Inl e)
            \<longleftrightarrow> errors ?st \<noteq> [] \<and> failed ?st = length outcomes"
      by (simp add: Search_def Let_def)
    also have "\<dots> \<longleftrightarrow> outcomes \<noteq> [] \<and> list_all is_failure outcomes"
      unfolding ne allf by (cases outcomes) (auto simp: list_all_iff)
    finally show ?thesis .
  qed
  have mem: "Search lib outcomes = Inl e \<longrightarrow>
        Some e \<in> snd ` set outcomes \<and> snd (hd outcomes) = Some e"
  proof
    assume a: "Search lib outcomes = Inl e"
    then have c: "errors ?st \<noteq> []" "failed ?st = length outcomes" and he: "e = hd (errors ?st)"
      by (auto simp: Search_def Let_def split: if_splits)
    from hdfirst [OF c] he have 1: "snd (hd outcomes) = Some e" by simp
    from c ne have "outcomes \<noteq> []" by auto
    then have "hd outcomes \<in> set outcomes" by simp
    then have "snd (hd outcomes) \<in> snd ` set outcomes" by (rule imageI)
    with 1 show "Some e \<in> snd ` set outcomes \<and> snd (hd outcomes) = Some e" by simp
  qed
  have inr: "\<not> list_all is_failure outcomes \<longrightarrow>
        (\<exists>r. Search lib outcomes = Inr r
             \<and> ProvidersFailed r = length (filter is_failure outcomes))"
    using allf f by (simp add: Search_def Let_def)
  show ?thesis using inl mem inr by blast
qed

text \<open>Two failing providers; and the partial-failure scenario S3.\<close>

theorem Search_error_iff_all_failed_witness:
  "Search (iterating id) [([], Some ''all providers down''), ([], Some ''timeout'')]
     = Inl ''all providers down''
   \<and> list_all is_failure [([], Some ''all providers down''), ([], Some ''timeout'')]
   \<and> Some ''all providers down''
        \<in> snd ` set ([([], Some ''all providers down''), ([], Some ''timeout'')] :: outcome list)
   \<and> snd (hd ([([], Some ''all providers down''), ([], Some ''timeout'')] :: outcome list))
        = Some ''all providers down''
   \<and> \<not> list_all is_failure [([raw_hotel ''H001'' ''Hotel A'' ''EUR'' (Finite 100)], None),
                              ([], Some ''provider unavailable'')]
   \<and> Search (iterating id) [([raw_hotel ''H001'' ''Hotel A'' ''EUR'' (Finite 100)], None),
                 ([], Some ''provider unavailable'')]
       = Inr \<lparr>Hotels = [hotel ''H001'' ''Hotel A'' ''EUR'' (Finite 100)],
               ProvidersTotal = 2, ProvidersSucceeded = 1, ProvidersFailed = 1\<rparr>"
proof -
  let ?bad = "[([], Some ''all providers down''), ([], Some ''timeout'')] :: outcome list"
  let ?mix = "[([raw_hotel ''H001'' ''Hotel A'' ''EUR'' (Finite 100)], None),
               ([], Some ''provider unavailable'')]"
  have s1: "Search (iterating id) ?bad = Inl ''all providers down''" by code_simp
  have n2: "\<not> list_all is_failure ?mix" by code_simp
  have s2: "Search (iterating id) ?mix = Inr \<lparr>Hotels = [hotel ''H001'' ''Hotel A'' ''EUR'' (Finite 100)],
               ProvidersTotal = 2, ProvidersSucceeded = 1, ProvidersFailed = 1\<rparr>" by code_simp
  note t1 = Search_error_iff_all_failed [where lib = "iterating id" and outcomes = ?bad
      and e = "''all providers down''"]
  note t2 = Search_error_iff_all_failed [where lib = "iterating id" and outcomes = ?mix
      and e = "''x''"]
  from t1 s1 have a: "list_all is_failure ?bad" by blast
  from t1 s1 have b: "Some ''all providers down'' \<in> snd ` set ?bad" by blast
  from t1 s1 have c: "snd (hd ?bad) = Some ''all providers down''" by blast
  from t2 n2 have "\<exists>r. Search (iterating id) ?mix = Inr r
      \<and> ProvidersFailed r = length (filter is_failure ?mix)"
    by blast
  show ?thesis by (intro conjI) (rule s1, rule a, rule b, rule c, rule n2, rule s2)
qed

text \<open>
  Claim C3. The merge is to keep, for each hotel id, the minimum price reported for it (it
  dedups by hotel id and keeps the lowest price). When a hotel with a \<open>NaN\<close> price, which
  the normalizer lets through, is the first of its id to arrive, no later price compares
  less than \<open>NaN\<close>: the \<open>NaN\<close> entry stays in the result, although a price of 100 was
  reported for the same hotel id.
\<close>

theorem Search_dedup_NaN_kept:
  "Search (iterating id) [([raw_hotel ''H001'' ''Hotel A'' ''EUR'' NaN], None),
              ([raw_hotel ''H001'' ''Hotel A'' ''EUR'' (Finite 100)], None)]
     = Inr \<lparr>Hotels = [hotel ''H001'' ''Hotel A'' ''EUR'' NaN],
             ProvidersTotal = 2, ProvidersSucceeded = 2, ProvidersFailed = 0\<rparr>
   \<and> \<not> f64_le NaN (Finite 100)"
  by code_simp

text \<open>
  The merge itself is as it should be. The hotels of a result have pairwise different hotel
  ids, these are exactly the hotel ids of the arrivals, and every hotel of the result is one
  of the arrivals. For a hotel id none of whose arrivals has a \<open>NaN\<close> price, the entry kept
  has the minimum price reported for the id and is the first with that price: every earlier
  arrival with the same id is strictly more expensive, every later one at least as expensive.
\<close>

lemma Search_dedup_without_NaN:
  assumes "permutes lib" and "Search lib outcomes = Inr r"
  shows "distinct (map HotelID (Hotels r))
       \<and> set (map HotelID (Hotels r)) = set (map HotelID (arrivals lib outcomes))
       \<and> set (Hotels r) \<subseteq> set (arrivals lib outcomes)
       \<and> (\<forall>h\<in>set (Hotels r).
            (\<forall>a\<in>set (arrivals lib outcomes). HotelID a = HotelID h \<longrightarrow> \<not> isNaN (Price a)) \<longrightarrow>
            (\<exists>as bs. arrivals lib outcomes = as @ h # bs
               \<and> (\<forall>a\<in>set as. HotelID a = HotelID h \<longrightarrow> f64_lt (Price h) (Price a))
               \<and> (\<forall>b\<in>set bs. HotelID b = HotelID h \<longrightarrow> f64_le (Price h) (Price b))))"
proof -
  let ?m = "foldl merge_hotel [] (arrivals lib outcomes)"
  have m: "merged (arrivals lib outcomes) ?m" by (rule merged_foldl)
  have ms: "mset (Hotels r) = mset (map snd ?m)" using assms by (rule Search_Inr_Hotels)
  have ids: "map HotelID (map snd ?m) = map fst ?m" using m by (rule merged_ids)
  have "mset (map HotelID (Hotels r)) = mset (map HotelID (map snd ?m))"
    using ms by (simp only: mset_map)
  then have mi: "mset (map HotelID (Hotels r)) = mset (map fst ?m)" by (simp only: ids)
  have dm: "distinct (map fst ?m)" using m by (simp add: merged_def)
  have d: "distinct (map HotelID (Hotels r))"
    using mset_eq_imp_distinct_iff [OF mi] dm by simp
  have "set (map HotelID (Hotels r)) = set (map fst ?m)" using mi by (rule mset_eq_setD)
  also have "\<dots> = set (map HotelID (arrivals lib outcomes))" using m by (simp add: merged_def)
  finally have s2: "set (map HotelID (Hotels r)) = set (map HotelID (arrivals lib outcomes))" .
  have sv: "set (Hotels r) = set (map snd ?m)" using ms by (rule mset_eq_setD)
  have mem: "map_of ?m (HotelID h) = Some h \<and> h \<in> set (arrivals lib outcomes)"
    if "h \<in> set (Hotels r)" for h
  proof -
    from that sv obtain k where kh: "(k, h) \<in> set ?m" by auto
    from merged_entry [OF m kh] have e: "HotelID h = k" "h \<in> set (arrivals lib outcomes)" by simp_all
    from kh dm have "map_of ?m k = Some h" by simp
    with e show ?thesis by simp
  qed
  have sub: "set (Hotels r) \<subseteq> set (arrivals lib outcomes)" using mem by blast
  have k: "\<forall>h\<in>set (Hotels r).
            (\<forall>a\<in>set (arrivals lib outcomes). HotelID a = HotelID h \<longrightarrow> \<not> isNaN (Price a)) \<longrightarrow>
            kept (arrivals lib outcomes) h"
  proof (intro impI ballI)
    fix h assume h: "h \<in> set (Hotels r)"
      and nn: "\<forall>a\<in>set (arrivals lib outcomes). HotelID a = HotelID h \<longrightarrow> \<not> isNaN (Price a)"
    from mem [OF h] have "map_of ?m (HotelID h) = Some h" by simp
    then show "kept (arrivals lib outcomes) h" using nn by (rule kept_foldl)
  qed
  from d s2 sub k show ?thesis unfolding kept_def by (intro conjI)
qed

text \<open>
  Claim C4. The hotels of a result are to be sorted by non-decreasing price. With a \<open>NaN\<close>
  price among them, which the normalizer lets through, no comparison with it is true and the
  sort swaps nothing: in either order of iteration over the map, the \<open>NaN\<close> entry stands next
  to an entry whose price it is neither \<open>\<le>\<close> nor \<open>\<ge>\<close>.
\<close>

theorem Search_sorted_NaN_unsorted:
  "Search (iterating id) [([raw_hotel ''H001'' ''Hotel A'' ''EUR'' NaN,
                raw_hotel ''H002'' ''Hotel B'' ''EUR'' (Finite 100)], None)]
     = Inr \<lparr>Hotels = [hotel ''H001'' ''Hotel A'' ''EUR'' NaN,
                       hotel ''H002'' ''Hotel B'' ''EUR'' (Finite 100)],
             ProvidersTotal = 1, ProvidersSucceeded = 1, ProvidersFailed = 0\<rparr>
   \<and> \<not> f64_le NaN (Finite 100)
   \<and> Search (iterating rev) [([raw_hotel ''H001'' ''Hotel A'' ''EUR'' NaN,
                raw_hotel ''H002'' ''Hotel B'' ''EUR'' (Finite 100)], None)]
     = Inr \<lparr>Hotels = [hotel ''H002'' ''Hotel B'' ''EUR'' (Finite 100),
                       hotel ''H001'' ''Hotel A'' ''EUR'' NaN],
             ProvidersTotal = 1, ProvidersSucceeded = 1, ProvidersFailed = 0\<rparr>
   \<and> \<not> f64_le (Finite 100) NaN"
  by code_simp

text \<open>
  The sort itself is as it should be. If no hotel of a result has a \<open>NaN\<close> price, the hotels
  are sorted by non-decreasing price, whatever the order of iteration over the map: for at
  most twelve hotels by the insertion sort, for more provided that the library's sort
  orders a slice without \<open>NaN\<close> prices.
\<close>

lemma Search_sorted_without_NaN:
  assumes "permutes lib" and "Search lib outcomes = Inr r"
    and "\<forall>h\<in>set (Hotels r). \<not> isNaN (Price h)"
    and "\<forall>xs. (\<forall>a\<in>set xs. \<not> isNaN (Price a)) \<longrightarrow>
           sorted_wrt (\<lambda>a b. f64_le (Price a) (Price b)) (pdqsort_func lib price_less xs)"
  shows "sorted_wrt (\<lambda>a b. f64_le (Price a) (Price b)) (Hotels r)
       \<and> (\<forall>i. Suc i < length (Hotels r) \<longrightarrow> f64_le (Price (Hotels r ! i)) (Price (Hotels r ! Suc i)))"
proof -
  let ?xs = "range_map lib (map snd (foldl merge_hotel [] (arrivals lib outcomes)))"
  have eq: "Hotels r = sort_Slice (pdqsort_func lib) price_less ?xs"
    using assms(2) by (rule Search_Inr_sort)
  have "\<forall>xs. mset (pdqsort_func lib price_less xs) = mset xs"
    using assms(1) by (simp add: permutes_def)
  then have "mset (Hotels r) = mset ?xs" unfolding eq by (rule mset_sort_Slice)
  then have "set (Hotels r) = set ?xs" by (rule mset_eq_setD)
  with assms(3) have nn: "\<forall>a\<in>set ?xs. \<not> isNaN (Price a)" by simp
  have s: "sorted_wrt (\<lambda>a b. f64_le (Price a) (Price b)) (Hotels r)"
  proof (cases "length ?xs \<le> 12")
    case True
    then have "Hotels r = insertionSort price_less ?xs" using eq by (simp add: sort_Slice_def)
    with nn show ?thesis by (simp add: insertionSort_sorted)
  next
    case False
    then have "Hotels r = pdqsort_func lib price_less ?xs" using eq by (simp add: sort_Slice_def)
    with nn assms(4) show ?thesis by simp
  qed
  then show ?thesis by (auto simp: sorted_wrt_iff_nth_less)
qed

section \<open>Properties of the rate limiter\<close>

lemma Allow_eq:
  "Allow l now key =
     (l\<lparr>buckets := (buckets l)(key \<mapsto> fst (allow_bucket (rate l) (window l) now (buckets l key)))\<rparr>,
      snd (allow_bucket (rate l) (window l) now (buckets l key)))"
  by (simp add: Allow_def allow_bucket_def Let_def)

lemma allow_bucket_range:
  assumes "\<forall>b. bo = Some b \<longrightarrow> min 0 r \<le> tokens b \<and> tokens b \<le> r"
  shows "min 0 r \<le> tokens (fst (allow_bucket r w now bo)) \<and> tokens (fst (allow_bucket r w now bo)) \<le> r"
  using assms by (cases bo) (auto simp: allow_bucket_def Let_def)

lemma allow_bucket_denies:
  assumes "\<forall>b. bo = Some b \<longrightarrow> tokens b \<le> r" "r \<le> 0"
  shows "\<not> snd (allow_bucket r w now bo)"
  using assms by (cases bo) (auto simp: allow_bucket_def Let_def)

lemma New_in_range: "tokens_in_range (New r w)"
  by (simp add: tokens_in_range_def New_def)

lemma Allow_rate [simp]: "rate (fst (Allow l now key)) = rate l" "window (fst (Allow l now key)) = window l"
  by (simp_all add: Allow_eq)

lemma cleanup_rate [simp]: "rate (cleanup_tick l now) = rate l" "window (cleanup_tick l now) = window l"
  by (simp_all add: cleanup_tick_def)

lemma Allow_in_range:
  assumes "tokens_in_range l" shows "tokens_in_range (fst (Allow l now key))"
proof -
  have "\<forall>b. buckets l key = Some b \<longrightarrow> min 0 (rate l) \<le> tokens b \<and> tokens b \<le> rate l"
    using assms by (simp add: tokens_in_range_def)
  from allow_bucket_range [OF this] assms show ?thesis
    by (simp add: tokens_in_range_def Allow_eq)
qed

lemma cleanup_in_range: "tokens_in_range l \<Longrightarrow> tokens_in_range (cleanup_tick l now)"
  unfolding tokens_in_range_def cleanup_tick_def
  by (simp split: option.splits if_splits)

lemma Allow_denies:
  assumes "tokens_in_range l" "rate l \<le> 0" shows "\<not> snd (Allow l now key)"
proof -
  have "\<forall>b. buckets l key = Some b \<longrightarrow> tokens b \<le> rate l"
    using assms(1) by (simp add: tokens_in_range_def)
  from allow_bucket_denies [OF this assms(2)] show ?thesis by (simp add: Allow_eq)
qed

lemma run_Allow:
  "run l ((now, AllowCall key) # ops) =
     (fst (run (fst (Allow l now key)) ops),
      \<lparr>e_time = now, e_key = key, e_ok = snd (Allow l now key),
        e_start = (case buckets (fst (Allow l now key)) key of None \<Rightarrow> now | Some b \<Rightarrow> lastReset b)\<rparr>
      # snd (run (fst (Allow l now key)) ops))"
  by (simp add: split_beta Let_def)

lemma run_rate: "rate (fst (run l ops)) = rate l \<and> window (fst (run l ops)) = window l"
proof (induction ops arbitrary: l)
  case Nil then show ?case by simp
next
  case (Cons a ops)
  obtain now o' where a: "a = (now, o')" by (cases a)
  show ?case
  proof (cases o')
    case (AllowCall key)
    with a Cons [of "fst (Allow l now key)"] show ?thesis by (simp only: run_Allow fst_conv Allow_rate)
  next
    case CleanupTick
    with a Cons [of "cleanup_tick l now"] show ?thesis by simp
  qed
qed

lemma run_in_range: "tokens_in_range l \<Longrightarrow> tokens_in_range (fst (run l ops))"
proof (induction ops arbitrary: l)
  case Nil then show ?case by simp
next
  case (Cons a ops)
  obtain now o' where a: "a = (now, o')" by (cases a)
  show ?case
  proof (cases o')
    case (AllowCall key)
    with a Cons show ?thesis by (simp only: run_Allow fst_conv Allow_in_range)
  next
    case CleanupTick
    with a Cons show ?thesis by (simp add: cleanup_in_range)
  qed
qed

lemma run_denies:
  "tokens_in_range l \<Longrightarrow> rate l \<le> 0 \<Longrightarrow> e \<in> set (snd (run l ops)) \<Longrightarrow> \<not> e_ok e"
proof (induction ops arbitrary: l)
  case Nil then show ?case by simp
next
  case (Cons a ops)
  obtain now o' where a: "a = (now, o')" by (cases a)
  show ?case
  proof (cases o')
    case (AllowCall key)
    let ?l' = "fst (Allow l now key)"
    have r: "tokens_in_range ?l'" "rate ?l' \<le> 0" using Cons.prems by (simp_all add: Allow_in_range)
    have d: "\<not> snd (Allow l now key)" using Cons.prems(1,2) by (rule Allow_denies)
    from Cons.prems(3) a AllowCall
    have "e_ok e = snd (Allow l now key) \<or> e \<in> set (snd (run ?l' ops))"
      by (auto simp only: run_Allow snd_conv set_simps entry.simps)
    with d Cons.IH [OF r] show ?thesis by blast
  next
    case CleanupTick
    with a Cons.prems Cons.IH [of "cleanup_tick l now"] show ?thesis
      by (simp add: cleanup_in_range)
  qed
qed

lemma capB_allow:
  assumes "T \<le> now" "\<forall>b. bo = Some b \<longrightarrow> tokens b \<le> r"
  shows "(if snd (allow_bucket r w now bo) \<and> lo \<le> now \<and> now < lo + w then 1 else 0)
           + capB r w lo now (Some (fst (allow_bucket r w now bo))) \<le> capB r w lo T bo"
proof (cases bo)
  case None
  with assms show ?thesis by (auto simp: capB_def allow_bucket_def Let_def)
next
  case (Some b)
  with assms have "tokens b \<le> r" by simp
  with Some assms(1) show ?thesis
    by (auto simp: capB_def allow_bucket_def Let_def)
qed

lemma capB_mono:
  assumes "T \<le> now" "\<forall>b. bo = Some b \<longrightarrow> tokens b \<le> r"
  shows "capB r w lo now bo \<le> capB r w lo T bo"
  using assms by (cases bo) (auto simp: capB_def)

lemma capB_cleanup:
  assumes "T \<le> now" "\<forall>b. bo = Some b \<longrightarrow> tokens b \<le> r" "0 \<le> w"
  shows "capB r w lo now (case bo of None \<Rightarrow> None
             | Some b \<Rightarrow> if now - lastReset b > 2 * w then None else Some b) \<le> capB r w lo T bo"
  using assms by (cases bo) (auto simp: capB_def)

lemma wrap64_double:
  "0 \<le> w \<Longrightarrow> 2 * w \<le> 9223372036854775807 \<Longrightarrow> wrap64 (2 * w) = 2 * w"
  by (simp add: wrap64_def)

lemma cleanup_buckets:
  assumes "0 \<le> window l" "2 * window l \<le> 9223372036854775807"
  shows "buckets (cleanup_tick l now) k =
     (case buckets l k of None \<Rightarrow> None
      | Some b \<Rightarrow> if now - lastReset b > 2 * window l then None else Some b)"
  by (simp add: cleanup_tick_def wrap64_double [OF assms] split: option.split)

lemma run_Cleanup: "run l ((now, CleanupTick) # ops) = run (cleanup_tick l now) ops"
  by simp

lemma key_in_range: "tokens_in_range l \<Longrightarrow> \<forall>b. buckets l k = Some b \<longrightarrow> tokens b \<le> rate l"
  by (simp add: tokens_in_range_def)

lemma window_count_gen:
  assumes "sorted (map fst ops)" "\<forall>t\<in>set (map fst ops). T \<le> t" "tokens_in_range l" "0 \<le> window l"
    "2 * window l \<le> 9223372036854775807"
  shows "length (filter (in_window lo (window l) k) (snd (run l ops)))
           \<le> capB (rate l) (window l) lo T (buckets l k)"
  using assms
proof (induction ops arbitrary: l T)
  case Nil then show ?case by simp
next
  case (Cons a ops)
  obtain now o' where a: "a = (now, o')" by (cases a)
  have Tn: "T \<le> now" using Cons.prems(2) a by simp
  have so: "sorted (map fst ops)" "\<forall>t\<in>set (map fst ops). now \<le> t"
    using Cons.prems(1) a by simp_all
  have kr: "\<forall>b. buckets l k = Some b \<longrightarrow> tokens b \<le> rate l"
    using Cons.prems(3) by (rule key_in_range)
  show ?case
  proof (cases o')
    case CleanupTick
    let ?l' = "cleanup_tick l now"
    have "length (filter (in_window lo (window ?l') k) (snd (run ?l' ops)))
            \<le> capB (rate ?l') (window ?l') lo now (buckets ?l' k)"
      using so Cons.prems(3,4,5) by (intro Cons.IH) (simp_all add: cleanup_in_range)
    also have "\<dots> \<le> capB (rate l) (window l) lo T (buckets l k)"
      using capB_cleanup [OF Tn kr Cons.prems(4), of lo]
      by (simp add: cleanup_buckets [OF Cons.prems(4,5)])
    finally show ?thesis using a CleanupTick by simp
  next
    case (AllowCall key)
    let ?l' = "fst (Allow l now key)"
    let ?e = "\<lparr>e_time = now, e_key = key, e_ok = snd (Allow l now key),
        e_start = (case buckets ?l' key of None \<Rightarrow> now | Some b \<Rightarrow> lastReset b)\<rparr>"
    have IH: "length (filter (in_window lo (window l) k) (snd (run ?l' ops)))
            \<le> capB (rate l) (window l) lo now (buckets ?l' k)"
      using Cons.IH [where l = ?l' and T = now] so Cons.prems(3,4,5) by (simp add: Allow_in_range)
    have run: "snd (run l (a # ops)) = ?e # snd (run ?l' ops)"
      using a AllowCall by (simp only: run_Allow snd_conv)
    show ?thesis
    proof (cases "key = k")
      case True
      have b': "buckets ?l' k = Some (fst (allow_bucket (rate l) (window l) now (buckets l k)))"
        and ok: "snd (Allow l now key) = snd (allow_bucket (rate l) (window l) now (buckets l k))"
        using True by (simp_all add: Allow_eq)
      have "length (filter (in_window lo (window l) k) (snd (run l (a # ops))))
              = (if in_window lo (window l) k ?e then 1 else 0)
                + length (filter (in_window lo (window l) k) (snd (run ?l' ops)))"
        unfolding run by simp
      also have "in_window lo (window l) k ?e
          \<longleftrightarrow> snd (allow_bucket (rate l) (window l) now (buckets l k)) \<and> lo \<le> now \<and> now < lo + window l"
        using True ok by (simp add: in_window_def)
      finally show ?thesis using IH capB_allow [OF Tn kr, of "window l" lo] unfolding b'
        by (simp split: if_splits)
    next
      case False
      then have same: "buckets ?l' k = buckets l k" by (simp add: Allow_eq)
      have "\<not> in_window lo (window l) k ?e" using False by (simp add: in_window_def)
      then have "length (filter (in_window lo (window l) k) (snd (run l (a # ops))))
              = length (filter (in_window lo (window l) k) (snd (run ?l' ops)))"
        unfolding run by simp
      with IH capB_mono [OF Tn kr, of "window l" lo] same show ?thesis by simp
    qed
  qed
qed

lemma capA_allow:
  assumes "T \<le> now" "\<forall>b. bo = Some b \<longrightarrow> tokens b \<le> r" "0 < w"
  shows "(if snd (allow_bucket r w now bo) \<and> lastReset (fst (allow_bucket r w now bo)) = s then 1 else 0)
           + capA r s now (Some (fst (allow_bucket r w now bo))) \<le> capA r s T bo"
proof (cases bo)
  case None
  with assms show ?thesis by (auto simp: capA_def allow_bucket_def Let_def)
next
  case (Some b)
  with assms have "tokens b \<le> r" by simp
  with Some assms(1,3) show ?thesis
    by (auto simp: capA_def allow_bucket_def Let_def)
qed

lemma capA_mono:
  assumes "T \<le> now"
  shows "capA r s now bo \<le> capA r s T bo"
  using assms by (cases bo) (auto simp: capA_def)

lemma capA_cleanup:
  assumes "T \<le> now" "0 < w"
  shows "capA r s now (case bo of None \<Rightarrow> None
             | Some b \<Rightarrow> if now - lastReset b > 2 * w then None else Some b) \<le> capA r s T bo"
  using assms by (cases bo) (auto simp: capA_def)

lemma epoch_count_gen:
  assumes "sorted (map fst ops)" "\<forall>t\<in>set (map fst ops). T \<le> t" "tokens_in_range l" "0 < window l"
    "2 * window l \<le> 9223372036854775807"
  shows "length (filter (in_epoch s k) (snd (run l ops))) \<le> capA (rate l) s T (buckets l k)"
  using assms
proof (induction ops arbitrary: l T)
  case Nil then show ?case by simp
next
  case (Cons a ops)
  obtain now o' where a: "a = (now, o')" by (cases a)
  have Tn: "T \<le> now" using Cons.prems(2) a by simp
  have so: "sorted (map fst ops)" "\<forall>t\<in>set (map fst ops). now \<le> t"
    using Cons.prems(1) a by simp_all
  have kr: "\<forall>b. buckets l k = Some b \<longrightarrow> tokens b \<le> rate l"
    using Cons.prems(3) by (rule key_in_range)
  show ?case
  proof (cases o')
    case CleanupTick
    let ?l' = "cleanup_tick l now"
    have "length (filter (in_epoch s k) (snd (run ?l' ops))) \<le> capA (rate ?l') s now (buckets ?l' k)"
      using so Cons.prems(3,4,5) by (intro Cons.IH) (simp_all add: cleanup_in_range)
    also have "\<dots> \<le> capA (rate l) s T (buckets l k)"
      using capA_cleanup [OF Tn Cons.prems(4), of "rate l" s] Cons.prems(4,5)
      by (simp add: cleanup_buckets)
    finally show ?thesis using a CleanupTick by simp
  next
    case (AllowCall key)
    let ?l' = "fst (Allow l now key)"
    let ?e = "\<lparr>e_time = now, e_key = key, e_ok = snd (Allow l now key),
        e_start = (case buckets ?l' key of None \<Rightarrow> now | Some b \<Rightarrow> lastReset b)\<rparr>"
    have IH: "length (filter (in_epoch s k) (snd (run ?l' ops))) \<le> capA (rate l) s now (buckets ?l' k)"
      using Cons.IH [where l = ?l' and T = now] so Cons.prems(3,4,5) by (simp add: Allow_in_range)
    have run: "snd (run l (a # ops)) = ?e # snd (run ?l' ops)"
      using a AllowCall by (simp only: run_Allow snd_conv)
    show ?thesis
    proof (cases "key = k")
      case True
      have b': "buckets ?l' k = Some (fst (allow_bucket (rate l) (window l) now (buckets l k)))"
        and ok: "snd (Allow l now key) = snd (allow_bucket (rate l) (window l) now (buckets l k))"
        using True by (simp_all add: Allow_eq)
      have "length (filter (in_epoch s k) (snd (run l (a # ops))))
              = (if in_epoch s k ?e then 1 else 0) + length (filter (in_epoch s k) (snd (run ?l' ops)))"
        unfolding run by simp
      also have "in_epoch s k ?e
          \<longleftrightarrow> snd (allow_bucket (rate l) (window l) now (buckets l k))
              \<and> lastReset (fst (allow_bucket (rate l) (window l) now (buckets l k))) = s"
        using True ok b' by (simp add: in_epoch_def)
      finally show ?thesis using IH capA_allow [OF Tn kr Cons.prems(4), where s = s] unfolding b'
        by (simp split: if_splits)
    next
      case False
      then have same: "buckets ?l' k = buckets l k" by (simp add: Allow_eq)
      have "\<not> in_epoch s k ?e" using False by (simp add: in_epoch_def)
      then have "length (filter (in_epoch s k) (snd (run l (a # ops))))
              = length (filter (in_epoch s k) (snd (run ?l' ops)))"
        unfolding run by simp
      with IH capA_mono [OF Tn, of "rate l" s "buckets l k"] same show ?thesis by simp
    qed
  qed
qed

lemma sorted_hd_le:
  "sorted (map fst ops) \<Longrightarrow> \<forall>t\<in>set (map fst ops). (case ops of [] \<Rightarrow> 0 | a # _ \<Rightarrow> fst a) \<le> t"
  by (cases ops) auto

subsection \<open>Token range and admission count\<close>

text \<open>
  Claim C8, as stated, fails for a negative rate: the new bucket gets \<open>tokens = rate\<close>, which
  is below zero, so \<open>0 \<le> tokens\<close> does not hold between operations.
\<close>

theorem Allow_negative_rate_counterexample:
  "buckets (fst (run (New (-5) 60) [(0, AllowCall ''user5'')])) ''user5''
     = Some \<lparr>tokens = -5, lastReset = 0\<rparr>
   \<and> \<not> (0 \<le> tokens \<lparr>tokens = -5, lastReset = 0\<rparr>)"
  by (simp add: New_def Allow_def)

text \<open>
  Claim C8, amended. For every history of \<^verbatim>\<open>Allow\<close> calls and sweeper ticks on a new
  limiter, every bucket satisfies \<open>0 \<le> tokens \<le> rate\<close> between operations when the rate is
  not negative, and \<open>tokens = rate\<close> when the rate is negative; when \<open>rate \<le> 0\<close> every call of
  \<^verbatim>\<open>Allow\<close> returns false.
\<close>

theorem Allow_tokens_range:
  "(buckets (fst (run (New r w) ops)) key = Some b \<longrightarrow>
      (0 \<le> r \<longrightarrow> 0 \<le> tokens b \<and> tokens b \<le> r) \<and> (r < 0 \<longrightarrow> tokens b = r))
   \<and> (r \<le> 0 \<and> e \<in> set (snd (run (New r w) ops)) \<longrightarrow> \<not> e_ok e)"
proof (intro conjI impI)
  have inv: "tokens_in_range (fst (run (New r w) ops))"
    using New_in_range by (rule run_in_range)
  have rt: "rate (fst (run (New r w) ops)) = r" by (simp add: run_rate New_def)
  assume "buckets (fst (run (New r w) ops)) key = Some b"
  with inv rt have b: "min 0 r \<le> tokens b \<and> tokens b \<le> r"
    unfolding tokens_in_range_def by metis
  show "0 \<le> tokens b" if "0 \<le> r" using b that by simp
  show "tokens b \<le> r" if "0 \<le> r" using b by simp
  show "tokens b = r" if "r < 0" using b that by simp
next
  assume a: "r \<le> 0 \<and> e \<in> set (snd (run (New r w) ops))"
  have "rate (New r w) \<le> 0" using a by (simp add: New_def)
  from run_denies [OF New_in_range this] a show "\<not> e_ok e" by blast
qed

text \<open>Three rapid calls at rate 2; one call at rate 0.\<close>

theorem Allow_tokens_range_witness:
  "buckets (fst (run (New 2 50) [(0, AllowCall ''user1''), (1, AllowCall ''user1''), (2, AllowCall ''user1'')]))
      ''user1'' = Some \<lparr>tokens = 0, lastReset = 0\<rparr>
   \<and> (0::int) \<le> 2 \<and> (0::int) \<le> tokens \<lparr>tokens = 0, lastReset = 0\<rparr>
   \<and> tokens \<lparr>tokens = 0, lastReset = 0\<rparr> \<le> (2::int)
   \<and> snd (run (New 0 60) [(0, AllowCall ''user4'')])
       = [\<lparr>e_time = 0, e_key = ''user4'', e_ok = False, e_start = 0\<rparr>]
   \<and> \<not> e_ok \<lparr>e_time = 0, e_key = ''user4'', e_ok = False, e_start = 0\<rparr>"
proof -
  let ?ops = "[(0, AllowCall ''user1''), (1, AllowCall ''user1''), (2, AllowCall ''user1'')]"
  let ?b = "\<lparr>tokens = 0, lastReset = 0\<rparr>"
  let ?e = "\<lparr>e_time = 0, e_key = ''user4'', e_ok = False, e_start = 0\<rparr>"
  have 1: "buckets (fst (run (New 2 50) ?ops)) ''user1'' = Some ?b"
    by (simp add: New_def Allow_def)
  have 2: "snd (run (New 0 60) [(0, AllowCall ''user4'')]) = [?e]"
    by (simp add: New_def Allow_def)
  have 3: "(0::int) \<le> 2" by simp
  note t1 = Allow_tokens_range [where r = 2 and w = 50 and ops = ?ops and key = "''user1''" and b = ?b]
  note t2 = Allow_tokens_range [where r = 0 and w = 60 and ops = "[(0, AllowCall ''user4'')]" and e = ?e]
  from t1 1 3 have 4: "0 \<le> tokens ?b" and 5: "tokens ?b \<le> 2" by blast+
  have "?e \<in> set (snd (run (New 0 60) [(0, AllowCall ''user4'')]))" unfolding 2 by simp
  with t2 have 6: "\<not> e_ok ?e" by blast
  show ?thesis by (intro conjI) (rule 1, rule 3, rule 4, rule 5, rule 2, rule 6)
qed

text \<open>
  Claim C7, as stated, fails at a window boundary: with rate 2 and window 50, the calls at
  times 49, 50 and 51 all return true (the call at 50 refills the bucket), three calls
  within the interval from 49 to 99.
\<close>

theorem Allow_window_burst_counterexample:
  "snd (run (New 2 50) [(0, AllowCall ''user1''), (49, AllowCall ''user1''),
                        (50, AllowCall ''user1''), (51, AllowCall ''user1'')])
     = [\<lparr>e_time = 0, e_key = ''user1'', e_ok = True, e_start = 0\<rparr>,
        \<lparr>e_time = 49, e_key = ''user1'', e_ok = True, e_start = 0\<rparr>,
        \<lparr>e_time = 50, e_key = ''user1'', e_ok = True, e_start = 50\<rparr>,
        \<lparr>e_time = 51, e_key = ''user1'', e_ok = True, e_start = 50\<rparr>]
   \<and> length (filter (in_window 49 50 ''user1'')
        [\<lparr>e_time = 0, e_key = ''user1'', e_ok = True, e_start = 0\<rparr>,
         \<lparr>e_time = 49, e_key = ''user1'', e_ok = True, e_start = 0\<rparr>,
         \<lparr>e_time = 50, e_key = ''user1'', e_ok = True, e_start = 50\<rparr>,
         \<lparr>e_time = 51, e_key = ''user1'', e_ok = True, e_start = 50\<rparr>]) = 3
   \<and> \<not> (3::nat) \<le> 2"
  by (simp add: New_def Allow_def in_window_def)

text \<open>
  Claim C7, amended. For every key and rate, every window whose double is within \<^verbatim>\<open>int64\<close>
  (at most \<open>2\<^sup>6\<^sup>2 - 1\<close> nanoseconds, some 146 years) and every history with non-decreasing
  clock readings, the number of calls for the key that return true within an interval
  \<open>[lo, lo + window)\<close> is at most twice the rate (none when the rate is negative); and
  when the window is positive, the number of calls that return true under one window start
  (between two refills of the bucket) is at most the rate.
\<close>

theorem Allow_window_bound:
  assumes "sorted (map fst ops)" and "2 * w \<le> 9223372036854775807"
  shows "length (filter (in_window lo w k) (snd (run (New r w) ops))) \<le> 2 * nat r
       \<and> (0 < w \<longrightarrow> length (filter (in_epoch s k) (snd (run (New r w) ops))) \<le> nat r)"
proof
  let ?T = "case ops of [] \<Rightarrow> 0 | a # _ \<Rightarrow> fst a"
  have T: "\<forall>t\<in>set (map fst ops). ?T \<le> t" using assms(1) by (rule sorted_hd_le)
  have w2: "2 * window (New r w) \<le> 9223372036854775807" using assms(2) by (simp add: New_def)
  show "length (filter (in_window lo w k) (snd (run (New r w) ops))) \<le> 2 * nat r"
  proof (cases "0 \<le> w")
    case True
    then have w: "0 \<le> window (New r w)" by (simp add: New_def)
    from window_count_gen [OF assms(1) T New_in_range w w2, of lo k]
    have "length (filter (in_window lo w k) (snd (run (New r w) ops))) \<le> capB r w lo ?T None"
      by (simp add: New_def)
    also have "\<dots> \<le> 2 * nat r" by (simp add: capB_def)
    finally show ?thesis .
  next
    case False
    then have "\<not> in_window lo w k e" for e by (simp add: in_window_def)
    then show ?thesis by simp
  qed
  show "0 < w \<longrightarrow> length (filter (in_epoch s k) (snd (run (New r w) ops))) \<le> nat r"
  proof
    assume "0 < w"
    then have w: "0 < window (New r w)" by (simp add: New_def)
    from epoch_count_gen [OF assms(1) T New_in_range w w2, of s k]
    have "length (filter (in_epoch s k) (snd (run (New r w) ops))) \<le> capA r s ?T None"
      by (simp add: New_def)
    also have "\<dots> \<le> nat r" by (simp add: capA_def)
    finally show "length (filter (in_epoch s k) (snd (run (New r w) ops))) \<le> nat r" .
  qed
qed

text \<open>
  Scenario S7: rate 2, window 50; three rapid calls, a tick of the sweeper, two more calls
  after 60.
\<close>

theorem Allow_window_bound_witness:
  "sorted (map fst ([(0, AllowCall ''user1''), (1, AllowCall ''user1''), (2, AllowCall ''user1''),
                    (30, CleanupTick), (60, AllowCall ''user1''), (61, AllowCall ''user1'')]
                   :: (int \<times> op) list))
   \<and> 2 * (50::int) \<le> 9223372036854775807
   \<and> snd (run (New 2 50) [(0, AllowCall ''user1''), (1, AllowCall ''user1''), (2, AllowCall ''user1''),
                            (30, CleanupTick), (60, AllowCall ''user1''), (61, AllowCall ''user1'')])
     = [\<lparr>e_time = 0, e_key = ''user1'', e_ok = True, e_start = 0\<rparr>,
        \<lparr>e_time = 1, e_key = ''user1'', e_ok = True, e_start = 0\<rparr>,
        \<lparr>e_time = 2, e_key = ''user1'', e_ok = False, e_start = 0\<rparr>,
        \<lparr>e_time = 60, e_key = ''user1'', e_ok = True, e_start = 60\<rparr>,
        \<lparr>e_time = 61, e_key = ''user1'', e_ok = True, e_start = 60\<rparr>]
   \<and> length (filter (in_window 20 50 ''user1'')
        (snd (run (New 2 50) [(0, AllowCall ''user1''), (1, AllowCall ''user1''), (2, AllowCall ''user1''),
                            (30, CleanupTick), (60, AllowCall ''user1''), (61, AllowCall ''user1'')])))
       \<le> 2 * nat 2
   \<and> (0::int) < 50
   \<and> length (filter (in_epoch 0 ''user1'')
        (snd (run (New 2 50) [(0, AllowCall ''user1''), (1, AllowCall ''user1''), (2, AllowCall ''user1''),
                            (30, CleanupTick), (60, AllowCall ''user1''), (61, AllowCall ''user1'')])))
       \<le> nat 2"
proof -
  let ?ops = "[(0, AllowCall ''user1''), (1, AllowCall ''user1''), (2, AllowCall ''user1''),
                    (30, CleanupTick), (60, AllowCall ''user1''), (61, AllowCall ''user1'')]
                   :: (int \<times> op) list"
  have s: "sorted (map fst ?ops)" by simp
  have d: "2 * (50::int) \<le> 9223372036854775807" by simp
  have r: "snd (run (New 2 50) ?ops)
     = [\<lparr>e_time = 0, e_key = ''user1'', e_ok = True, e_start = 0\<rparr>,
        \<lparr>e_time = 1, e_key = ''user1'', e_ok = True, e_start = 0\<rparr>,
        \<lparr>e_time = 2, e_key = ''user1'', e_ok = False, e_start = 0\<rparr>,
        \<lparr>e_time = 60, e_key = ''user1'', e_ok = True, e_start = 60\<rparr>,
        \<lparr>e_time = 61, e_key = ''user1'', e_ok = True, e_start = 60\<rparr>]"
    by code_simp
  have w: "(0::int) < 50" by simp
  note t = Allow_window_bound [OF s d, where k = "''user1''" and lo = 20 and r = 2 and s = 0]
  from t have a: "length (filter (in_window 20 50 ''user1'')
        (snd (run (New 2 50) ?ops))) \<le> 2 * nat 2" by blast
  from t w have b: "length (filter (in_epoch 0 ''user1'')
        (snd (run (New 2 50) ?ops))) \<le> nat 2" by blast
  show ?thesis by (intro conjI) (rule s, rule d, rule r, rule a, rule w, rule b)
qed

text \<open>
  The bound on the window is needed. For a window above half of the \<^verbatim>\<open>int64\<close> range the
  product \<^verbatim>\<open>2*l.window\<close> wraps around to a negative number, and every tick of the sweeper
  removes every bucket: at rate 1, with the largest window and a tick every five minutes,
  three calls return true within eleven minutes.
\<close>

lemma cleanup_tick_window_overflow:
  "wrap64 (2 * 9223372036854775807) = - 2
   \<and> map e_ok (snd (run (New 1 9223372036854775807)
        [(0, AllowCall ''user1''), (1, AllowCall ''user1''),
         (300000000000, CleanupTick), (300000000001, AllowCall ''user1''),
         (600000000000, CleanupTick), (600000000001, AllowCall ''user1'')]))
     = [True, False, True, True]"
  by code_simp

section \<open>Properties of the cache key\<close>

lemma of_char_digit: "d < 10 \<Longrightarrow> (of_char (char_of (48 + d :: nat)) :: nat) = 48 + d"
  by simp

lemma isDigit_char_of: "d < 10 \<Longrightarrow> isDigit (char_of (48 + d :: nat))"
  by (simp add: isDigit_def)

lemma digitVal_char_of: "d < 10 \<Longrightarrow> digitVal (char_of (48 + d :: nat)) = d"
  by (simp add: digitVal_def)

lemma decimal_digits: "list_all isDigit (decimal n)"
proof (induction n rule: decimal.induct)
  case (1 n)
  show ?case
  proof (cases "n < 10")
    case True
    then show ?thesis by (subst decimal.simps) (simp add: isDigit_char_of)
  next
    case False
    with 1 show ?thesis by (subst decimal.simps) (simp add: isDigit_char_of)
  qed
qed

lemma decimal_nonempty: "decimal n \<noteq> []"
  by (subst decimal.simps) simp

lemma decimalVal_snoc: "decimalVal (ds @ [c]) = 10 * decimalVal ds + digitVal c"
  by (simp add: decimalVal_def)

lemma decimalVal_decimal: "decimalVal (decimal n) = n"
proof (induction n rule: decimal.induct)
  case (1 n)
  show ?case
  proof (cases "n < 10")
    case True
    then show ?thesis by (subst decimal.simps) (simp add: decimalVal_def digitVal_char_of)
  next
    case False
    with 1 show ?thesis
      by (subst decimal.simps) (simp add: decimalVal_snoc digitVal_char_of)
  qed
qed

lemma decimal_inj: "decimal n = decimal m \<Longrightarrow> n = m"
  by (metis decimalVal_decimal)

lemma not_digit_colon: "\<not> isDigit CHR '':''" "\<not> isDigit CHR ''-''" "CHR ''-'' \<noteq> CHR '':''"
  by (simp_all add: isDigit_def)

lemma hd_decimal_digit: "isDigit (hd (decimal n))"
  using decimal_digits [of n] decimal_nonempty [of n]
  by (cases "decimal n") simp_all

lemma fmt_d_inj: "fmt_d i = fmt_d j \<Longrightarrow> i = j"
proof -
  assume a: "fmt_d i = fmt_d j"
  have neq: "CHR ''-'' # decimal a \<noteq> decimal b" for a b
    using hd_decimal_digit [of b] not_digit_colon(2) by (metis list.sel(1))
  show ?thesis
  proof (cases "i < 0")
    case True
    show ?thesis
    proof (cases "j < 0")
      case jn: True
      with True a have "decimal (nat (- i)) = decimal (nat (- j))" by (simp add: fmt_d_def)
      then have "nat (- i) = nat (- j)" by (rule decimal_inj)
      with True jn show ?thesis by simp
    next
      case False
      with True a neq show ?thesis by (simp add: fmt_d_def)
    qed
  next
    case False
    show ?thesis
    proof (cases "j < 0")
      case True
      with False a neq [of "nat (- j)" "nat i"] show ?thesis by (simp add: fmt_d_def)
    next
      case jp: False
      with False a have "decimal (nat i) = decimal (nat j)" by (simp add: fmt_d_def)
      then have "nat i = nat j" by (rule decimal_inj)
      with False jp show ?thesis by simp
    qed
  qed
qed

lemma fmt_d_no_colon: "CHR '':'' \<notin> set (fmt_d i)"
proof -
  have "CHR '':'' \<notin> set (decimal n)" for n
    using decimal_digits [of n] not_digit_colon(1) by (auto simp: list_all_iff)
  then show ?thesis using not_digit_colon(3) by (auto simp: fmt_d_def)
qed

lemma takeWhile_upto_sep: "c \<notin> set zs \<Longrightarrow> takeWhile (\<lambda>x. x \<noteq> c) (zs @ c # ws) = zs"
  by (induction zs) auto

lemma dropWhile_upto_sep: "c \<notin> set zs \<Longrightarrow> dropWhile (\<lambda>x. x \<noteq> c) (zs @ c # ws) = c # ws"
  by (induction zs) auto

lemma split_last_sep:
  assumes "xs @ c # ys = xs' @ c # ys'" "c \<notin> set ys" "c \<notin> set ys'"
  shows "xs = xs' \<and> ys = ys'"
proof -
  have "rev ys @ c # rev xs = rev ys' @ c # rev xs'"
    using arg_cong [OF assms(1), of rev] by simp
  moreover have "takeWhile (\<lambda>x. x \<noteq> c) (rev zs @ c # ws) = rev zs" if "c \<notin> set zs" for zs ws
    using that by (simp add: takeWhile_upto_sep)
  moreover have "dropWhile (\<lambda>x. x \<noteq> c) (rev zs @ c # ws) = c # ws" if "c \<notin> set zs" for zs ws
    using that by (simp add: dropWhile_upto_sep)
  ultimately have "rev ys = rev ys'" "c # rev xs = c # rev xs'"
    using assms(2,3) by metis+
  then show ?thesis by simp
qed

lemma parses_as_date_no_colon:
  assumes "parses_as_date s" shows "CHR '':'' \<notin> set s"
proof
  assume "CHR '':'' \<in> set s"
  then obtain i where i: "i < length s" "s ! i = CHR '':''" by (auto simp: in_set_conv_nth)
  from assms have l: "length s = 10" and a: "list_all isDigit (take 4 s)" and h1: "s ! 4 = CHR ''-''"
    and b: "list_all isDigit (take 2 (drop 5 s))" and h2: "s ! 7 = CHR ''-''"
    and c: "list_all isDigit (drop 8 s)"
    by (simp_all add: parses_as_date_def)
  have A: "isDigit (s ! j)" if "j < 4" for j
    using a that l by (auto simp: list_all_length)
  have B: "isDigit (s ! (5 + j))" if "j < 2" for j
    using b that l by (auto simp: list_all_length)
  have C: "isDigit (s ! (8 + j))" if "j < 2" for j
    using c that l by (auto simp: list_all_length)
  from i l have "i < 4 \<or> i = 4 \<or> i = 5 \<or> i = 6 \<or> i = 7 \<or> i = 8 \<or> i = 9" by arith
  then show False
    using i(2) A [of i] B [of 0] B [of 1] C [of 0] C [of 1] h1 h2 not_digit_colon
    by (elim disjE) simp_all
qed

lemma ParseSearchParams_Inr:
  assumes "ParseSearchParams q = Inr p"
  shows "City p \<noteq> [] \<and> City p = TrimSpace (q_city q) \<and> parses_as_date (Checkin p)
         \<and> 0 < Nights p \<and> 0 < Adults p"
  using assms
  by (auto simp: ParseSearchParams_def Let_def split: if_splits option.splits)

lemma Key_inj:
  assumes "Key c1 d1 n1 a1 = Key c2 d2 n2 a2" "CHR '':'' \<notin> set d1" "CHR '':'' \<notin> set d2"
  shows "c1 = c2 \<and> d1 = d2 \<and> n1 = n2 \<and> a1 = a2"
proof -
  have "(c1 @ '':'' @ d1 @ '':'' @ fmt_d n1) @ CHR '':'' # fmt_d a1
      = (c2 @ '':'' @ d2 @ '':'' @ fmt_d n2) @ CHR '':'' # fmt_d a2"
    using assms(1) by (simp add: Key_def)
  from split_last_sep [OF this fmt_d_no_colon fmt_d_no_colon]
  have 1: "c1 @ '':'' @ d1 @ '':'' @ fmt_d n1 = c2 @ '':'' @ d2 @ '':'' @ fmt_d n2"
    and a: "fmt_d a1 = fmt_d a2" by simp_all
  from 1 have "(c1 @ '':'' @ d1) @ CHR '':'' # fmt_d n1 = (c2 @ '':'' @ d2) @ CHR '':'' # fmt_d n2"
    by simp
  from split_last_sep [OF this fmt_d_no_colon fmt_d_no_colon]
  have 2: "c1 @ '':'' @ d1 = c2 @ '':'' @ d2" and n: "fmt_d n1 = fmt_d n2" by simp_all
  from 2 have "c1 @ CHR '':'' # d1 = c2 @ CHR '':'' # d2" by simp
  from split_last_sep [OF this assms(2,3)] have "c1 = c2" "d1 = d2" by simp_all
  with fmt_d_inj [OF a] fmt_d_inj [OF n] show ?thesis by simp
qed

subsection \<open>Injectivity on validated queries\<close>

text \<open>
  Claim C10. For every two queries that \<^verbatim>\<open>ParseSearchParams\<close> accepts, \<^verbatim>\<open>Cache.Key\<close>
  returns equal strings if and only if the validated parameters agree on city, check-in,
  nights and adults, also when a city contains colons: the check-in and the two decimal
  numbers contain none, so the key splits at its last three colons.
\<close>

theorem Key_injective:
  assumes "ParseSearchParams q1 = Inr p1" and "ParseSearchParams q2 = Inr p2"
  shows "Key (City p1) (Checkin p1) (Nights p1) (Adults p1)
           = Key (City p2) (Checkin p2) (Nights p2) (Adults p2)
         \<longleftrightarrow> City p1 = City p2 \<and> Checkin p1 = Checkin p2
             \<and> Nights p1 = Nights p2 \<and> Adults p1 = Adults p2"
proof
  assume k: "Key (City p1) (Checkin p1) (Nights p1) (Adults p1)
           = Key (City p2) (Checkin p2) (Nights p2) (Adults p2)"
  have "CHR '':'' \<notin> set (Checkin p1)" "CHR '':'' \<notin> set (Checkin p2)"
    using ParseSearchParams_Inr [OF assms(1)] ParseSearchParams_Inr [OF assms(2)]
    by (simp_all add: parses_as_date_no_colon)
  with k show "City p1 = City p2 \<and> Checkin p1 = Checkin p2
             \<and> Nights p1 = Nights p2 \<and> Adults p1 = Adults p2"
    by (rule Key_inj)
next
  assume "City p1 = City p2 \<and> Checkin p1 = Checkin p2
             \<and> Nights p1 = Nights p2 \<and> Adults p1 = Adults p2"
  then show "Key (City p1) (Checkin p1) (Nights p1) (Adults p1)
           = Key (City p2) (Checkin p2) (Nights p2) (Adults p2)" by simp
qed

text \<open>Two validated queries whose cities differ by a colon.\<close>

theorem Key_injective_witness:
  "ParseSearchParams \<lparr>q_city = ''a:b'', q_checkin = ''2025-12-01'', q_nights = ''2'', q_adults = ''2''\<rparr>
     = Inr \<lparr>City = ''a:b'', Checkin = ''2025-12-01'', Nights = 2, Adults = 2\<rparr>
   \<and> ParseSearchParams \<lparr>q_city = ''a'', q_checkin = ''2025-12-01'', q_nights = ''2'', q_adults = ''2''\<rparr>
     = Inr \<lparr>City = ''a'', Checkin = ''2025-12-01'', Nights = 2, Adults = 2\<rparr>
   \<and> Key ''a:b'' ''2025-12-01'' 2 2 = ''a:b:2025-12-01:2:2''
   \<and> Key ''a'' ''2025-12-01'' 2 2 = ''a:2025-12-01:2:2''
   \<and> Key ''a:b'' ''2025-12-01'' 2 2 \<noteq> Key ''a'' ''2025-12-01'' 2 2"
proof -
  let ?q1 = "\<lparr>q_city = ''a:b'', q_checkin = ''2025-12-01'', q_nights = ''2'', q_adults = ''2''\<rparr>"
  let ?q2 = "\<lparr>q_city = ''a'', q_checkin = ''2025-12-01'', q_nights = ''2'', q_adults = ''2''\<rparr>"
  let ?p1 = "\<lparr>City = ''a:b'', Checkin = ''2025-12-01'', Nights = 2, Adults = 2\<rparr>"
  let ?p2 = "\<lparr>City = ''a'', Checkin = ''2025-12-01'', Nights = 2, Adults = 2\<rparr>"
  have 1: "ParseSearchParams ?q1 = Inr ?p1" by code_simp
  have 2: "ParseSearchParams ?q2 = Inr ?p2" by code_simp
  have 3: "Key ''a:b'' ''2025-12-01'' 2 2 = ''a:b:2025-12-01:2:2''" by code_simp
  have 4: "Key ''a'' ''2025-12-01'' 2 2 = ''a:2025-12-01:2:2''" by code_simp
  have "City ?p1 \<noteq> City ?p2" by simp
  with Key_injective [OF 1 2] have 5: "Key ''a:b'' ''2025-12-01'' 2 2 \<noteq> Key ''a'' ''2025-12-01'' 2 2"
    by simp
  show ?thesis by (intro conjI) (rule 1, rule 2, rule 3, rule 4, rule 5)
qed

section \<open>Properties of the cache\<close>

lemma coherent_init: "coherent (init_conf t)"
  by (simp add: coherent_def inv_callers_def inv_one_def inv_open_def inv_inj_def inv_alloc_def
      init_conf_def NewCache_def)

lemma set_upd: "c' \<in> set (xs[i := c]) \<Longrightarrow> c' = c \<or> c' \<in> set xs"
  using set_update_subset_insert [of xs i c] by auto

lemma count_upd:
  "length (filter P (xs[i := c])) \<le> length (filter P xs) + (if P c then 1 else 0)"
proof (induction xs arbitrary: i)
  case Nil show ?case by simp
next
  case (Cons x xs)
  show ?case
  proof (cases i)
    case 0 then show ?thesis by simp
  next
    case (Suc j)
    with Cons [of j] show ?thesis by (auto split: if_splits)
  qed
qed

lemma count_upd_leave:
  assumes "i < length xs" "P (xs ! i)" "\<not> P c"
  shows "Suc (length (filter P (xs[i := c]))) = length (filter P xs)"
  using assms
proof (induction xs arbitrary: i)
  case Nil then show ?case by simp
next
  case (Cons x xs)
  show ?case
  proof (cases i)
    case 0 with Cons.prems show ?thesis by simp
  next
    case (Suc j)
    with Cons.prems Cons.IH [of j] show ?thesis by simp
  qed
qed

lemma count_none: "(\<forall>c\<in>set xs. \<not> P c) \<Longrightarrow> length (filter P xs) = 0"
  by (induction xs) auto

text \<open>Framing: these predicates depend neither on the callers nor on the entries.\<close>

lemma frame_callers [simp]:
  "holds (s\<lparr>callers := cs\<rparr>) = holds s" "done_closed (s\<lparr>callers := cs\<rparr>) = done_closed s"
  "unregistered (s\<lparr>callers := cs\<rparr>) = unregistered s"
  by (simp_all add: holds_def unregistered_def done_closed_def fun_eq_iff)

lemma frame_entries [simp]:
  "holds (s\<lparr>cache := (cache s)\<lparr>entries := e\<rparr>\<rparr>) = holds s"
  "done_closed (s\<lparr>cache := (cache s)\<lparr>entries := e\<rparr>\<rparr>) = done_closed s"
  "unregistered (s\<lparr>cache := (cache s)\<lparr>entries := e\<rparr>\<rparr>) = unregistered s"
  by (simp_all add: holds_def unregistered_def done_closed_def fun_eq_iff)

lemma caller_ok_callers [simp]: "caller_ok (s\<lparr>callers := cs\<rparr>) c = caller_ok s c"
  by (simp add: caller_ok_def split: caller.splits role.splits)

lemma caller_ok_simps [simp]:
  "caller_ok s (Idle k)" "caller_ok s (Waiting a)" "caller_ok s (Returned Hit res hit err)"
  "caller_ok s (Returned (Cancelled a) res hit err)"
  "caller_ok s (Fetching k a) \<longleftrightarrow> inflight (cache s) k = Some a"
  "caller_ok s (Notifying a res err) \<longleftrightarrow> holds s a res err \<and> unregistered s a"
  "caller_ok s (Returned (Leader a) res hit err)
     \<longleftrightarrow> holds s a res err \<and> \<not> hit \<and> unregistered s a"
  "caller_ok s (Returned (Waiter a) res hit err) \<longleftrightarrow> holds s a res err \<and> \<not> hit \<and> done_closed s a"
  by (simp_all add: caller_ok_def)

lemma fetching_on_simps [simp]:
  "fetching_on k (Fetching k' a) \<longleftrightarrow> k' = k" "\<not> fetching_on k (Idle k')"
  "\<not> fetching_on k (Notifying a res err)" "\<not> fetching_on k (Waiting a)"
  "\<not> fetching_on k (Returned ro res hit err)"
  by (simp_all add: fetching_on_def)

lemma inv_callers_upd:
  assumes "inv_callers s" "caller_ok s c"
  shows "inv_callers (s\<lparr>callers := (callers s)[i := c]\<rparr>)"
  using assms unfolding inv_callers_def by (auto dest!: set_upd)

lemma inv_one_upd:
  assumes "inv_one s" "\<And>k. \<not> fetching_on k c"
  shows "inv_one (s\<lparr>callers := (callers s)[i := c]\<rparr>)"
proof -
  have "length (filter (fetching_on k) ((callers s)[i := c])) \<le> 1" for k
  proof -
    have "length (filter (fetching_on k) ((callers s)[i := c]))
            \<le> length (filter (fetching_on k) (callers s))"
      using count_upd [of "fetching_on k" "callers s" i c] assms(2) [of k] by simp
    also have "\<dots> \<le> 1" using assms(1) by (simp add: inv_one_def)
    finally show ?thesis .
  qed
  then show ?thesis by (simp add: inv_one_def)
qed

lemma coherent_upd:
  assumes "coherent s" "caller_ok s c" "\<And>k. \<not> fetching_on k c"
  shows "coherent (s\<lparr>callers := (callers s)[i := c]\<rparr>)"
proof -
  have "inv_callers (s\<lparr>callers := (callers s)[i := c]\<rparr>)"
    using assms(1,2) by (simp add: coherent_def inv_callers_upd)
  moreover have "inv_one (s\<lparr>callers := (callers s)[i := c]\<rparr>)"
    using assms(1,3) by (simp add: coherent_def inv_one_upd)
  ultimately show ?thesis using assms(1)
    by (simp add: coherent_def inv_open_def inv_inj_def inv_alloc_def done_closed_def)
qed

lemma coherent_Call:
  assumes "coherent s" shows "coherent (s\<lparr>callers := callers s @ [Idle key]\<rparr>)"
proof -
  have "inv_callers (s\<lparr>callers := callers s @ [Idle key]\<rparr>)"
    using assms by (auto simp: coherent_def inv_callers_def)
  moreover have "inv_one (s\<lparr>callers := callers s @ [Idle key]\<rparr>)"
    using assms by (simp add: coherent_def inv_one_def)
  ultimately show ?thesis using assms
    by (simp add: coherent_def inv_open_def inv_inj_def inv_alloc_def done_closed_def)
qed

lemma caller_ok_entries [simp]:
  "caller_ok (s\<lparr>cache := (cache s)\<lparr>entries := e\<rparr>\<rparr>) c = caller_ok s c"
  by (simp add: caller_ok_def split: caller.splits role.splits)

lemma coherent_entries:
  assumes "coherent s" shows "coherent (s\<lparr>cache := (cache s)\<lparr>entries := e\<rparr>\<rparr>)"
  using assms
  by (simp add: coherent_def inv_callers_def inv_one_def inv_open_def inv_inj_def inv_alloc_def
      done_closed_def)

lemma count_zero_iff: "length (filter P xs) = 0 \<longleftrightarrow> (\<forall>c\<in>set xs. \<not> P c)"
  by (simp add: filter_empty_conv)

text \<open>Becoming the leader.\<close>

lemma coherent_lead:
  assumes c: "coherent s" and nf: "inflight (cache s) key = None"
  shows "coherent (s\<lparr>heap := (heap s)(next_addr s \<mapsto> \<lparr>ir_done = False, ir_result = None, ir_err = None\<rparr>),
                next_addr := Suc (next_addr s),
                cache := (cache s)\<lparr>inflight := (inflight (cache s))(key \<mapsto> next_addr s)\<rparr>,
                callers := (callers s)[i := Fetching key (next_addr s)]\<rparr>)"
    (is "coherent ?s'")
proof -
  let ?n = "next_addr s"
  from c have ic: "inv_callers s" and io: "inv_one s" and iop: "inv_open s" and ii: "inv_inj s"
    and ia: "inv_alloc s" by (simp_all add: coherent_def)
  have old: "a < ?n" if "heap s a \<noteq> None" for a using ia that by (simp add: inv_alloc_def)
  have h: "holds ?s' a res err" if "holds s a res err" for a res err
    using that old [of a] by (auto simp: holds_def)
  have cl: "done_closed ?s' a \<longleftrightarrow> done_closed s a" if "heap s a \<noteq> None" for a
    using that old [of a] by (auto simp: done_closed_def)
  have un: "unregistered ?s' a" if "unregistered s a" "heap s a \<noteq> None" for a
    using that old [of a] by (auto simp: unregistered_def)
  have keep: "caller_ok ?s' c" if "caller_ok s c" "c \<in> set (callers s)" for c
  proof (cases c)
    case (Fetching k a)
    with that nf have "k \<noteq> key" by auto
    with Fetching that show ?thesis by simp
  next
    case (Notifying a res err)
    with that have "holds s a res err" "unregistered s a" by simp_all
    moreover from this have "heap s a \<noteq> None" by (auto simp: holds_def)
    ultimately show ?thesis using Notifying h [of a res err] un [of a] by simp
  next
    case (Returned ro res hit err)
    show ?thesis
    proof (cases ro)
      case (Leader a)
      with Returned that have "holds s a res err" "unregistered s a" "\<not> hit" by simp_all
      moreover from this have "heap s a \<noteq> None" by (auto simp: holds_def)
      ultimately show ?thesis using Returned Leader h [of a res err] un [of a] by simp
    next
      case (Waiter a)
      with Returned that have "holds s a res err" "done_closed s a" "\<not> hit" by simp_all
      moreover from this have "heap s a \<noteq> None" by (auto simp: holds_def)
      ultimately show ?thesis using Returned Waiter h [of a res err] cl [of a] by simp
    qed (simp_all add: Returned)
  qed simp_all
  have 1: "inv_callers ?s'"
    unfolding inv_callers_def
  proof
    fix c assume "c \<in> set (callers ?s')"
    then have "c = Fetching key ?n \<or> c \<in> set (callers s)" by (auto dest: set_upd)
    then show "caller_ok ?s' c"
    proof
      assume "c = Fetching key ?n" then show ?thesis by simp
    next
      assume m: "c \<in> set (callers s)"
      with ic have "caller_ok s c" by (simp add: inv_callers_def)
      then show ?thesis using m by (rule keep)
    qed
  qed
  have none: "\<forall>c\<in>set (callers s). \<not> fetching_on key c"
  proof
    fix c assume m: "c \<in> set (callers s)"
    with ic have ok: "caller_ok s c" by (simp add: inv_callers_def)
    show "\<not> fetching_on key c" using ok nf by (cases c) auto
  qed
  have 2: "inv_one ?s'"
    unfolding inv_one_def
  proof
    fix k
    have le: "length (filter (fetching_on k) (callers ?s'))
            \<le> length (filter (fetching_on k) (callers s)) + (if k = key then 1 else 0)"
      using count_upd [of "fetching_on k" "callers s" i "Fetching key ?n"] by auto
    show "length (filter (fetching_on k) (callers ?s')) \<le> 1"
    proof (cases "k = key")
      case True
      with none have "length (filter (fetching_on k) (callers s)) = 0" by (simp add: count_zero_iff)
      with le True show ?thesis by simp
    next
      case False
      with le have "length (filter (fetching_on k) (callers ?s'))
            \<le> length (filter (fetching_on k) (callers s))" by simp
      also have "\<dots> \<le> 1" using io by (simp add: inv_one_def)
      finally show ?thesis .
    qed
  qed
  have 3: "inv_open ?s'"
    unfolding inv_open_def
  proof (intro allI impI)
    fix k a assume r: "inflight (cache ?s') k = Some a"
    show "heap ?s' a \<noteq> None \<and> \<not> done_closed ?s' a"
    proof (cases "k = key")
      case True with r show ?thesis by (auto simp: done_closed_def)
    next
      case False
      with r have "inflight (cache s) k = Some a" by simp
      with iop have "heap s a \<noteq> None" "\<not> done_closed s a" by (simp_all add: inv_open_def)
      with cl [of a] old [of a] show ?thesis by auto
    qed
  qed
  have fresh: "inflight (cache s) k \<noteq> Some ?n" for k
  proof
    assume "inflight (cache s) k = Some ?n"
    with iop have "heap s ?n \<noteq> None" by (simp add: inv_open_def)
    with old [of ?n] show False by simp
  qed
  have 4: "inv_inj ?s'"
    using ii fresh unfolding inv_inj_def by (auto split: if_splits)
  have 5: "inv_alloc ?s'"
    using ia unfolding inv_alloc_def by (auto simp: less_Suc_eq)
  from 1 2 3 4 5 show ?thesis by (simp add: coherent_def)
qed

text \<open>The second critical section of the leader.\<close>

lemma coherent_store:
  assumes c: "coherent s" and i: "i < length (callers s)" "callers s ! i = Fetching key a"
  shows "coherent (GetOrFetch_store s i key a result err now)" (is "coherent ?s'")
proof -
  from c have ic: "inv_callers s" and io: "inv_one s" and iop: "inv_open s" and ii: "inv_inj s"
    and ia: "inv_alloc s" by (simp_all add: coherent_def)
  have mem: "Fetching key a \<in> set (callers s)" using i by (metis nth_mem)
  with ic have reg: "inflight (cache s) key = Some a" by (auto simp: inv_callers_def)
  with iop obtain r where r: "heap s a = Some r" and nd: "\<not> done_closed s a"
    by (auto simp: inv_open_def)
  have heap': "heap ?s' = (heap s)(a \<mapsto> r\<lparr>ir_result := result, ir_err := err\<rparr>)"
    using r by (simp add: GetOrFetch_store_def)
  have infl': "inflight (cache ?s') = (inflight (cache s))(key := None)"
    by (simp add: GetOrFetch_store_def)
  have cs': "callers ?s' = (callers s)[i := Notifying a result err]"
    by (simp add: GetOrFetch_store_def)
  have na': "next_addr ?s' = next_addr s" by (simp add: GetOrFetch_store_def)
  have h: "holds ?s' b res e" if "holds s b res e" "b \<noteq> a" for b res e
    using that by (simp add: holds_def heap')
  have cl: "done_closed ?s' b \<longleftrightarrow> done_closed s b" for b
    using r by (auto simp: done_closed_def heap')
  have un: "unregistered ?s' b" if "unregistered s b" for b
    using that by (simp add: unregistered_def infl')
  have una: "unregistered ?s' a"
    unfolding unregistered_def infl'
  proof
    fix k show "((inflight (cache s))(key := None)) k \<noteq> Some a"
      using ii reg unfolding inv_inj_def by (cases "k = key") auto
  qed
  have diff: "b \<noteq> a" if "unregistered s b" for b
    using that reg by (auto simp: unregistered_def)
  have keep: "caller_ok ?s' c" if "caller_ok s c" "\<not> fetching_on key c" for c
  proof (cases c)
    case (Fetching k b)
    with that show ?thesis by (simp add: infl')
  next
    case (Notifying b res e)
    with that have "holds s b res e" "unregistered s b" by simp_all
    with Notifying h [of b res e] un [of b] diff [of b] show ?thesis by simp
  next
    case (Returned ro res hit e)
    show ?thesis
    proof (cases ro)
      case (Leader b)
      with Returned that have "holds s b res e" "unregistered s b" "\<not> hit" by simp_all
      with Returned Leader h [of b res e] un [of b] diff [of b] show ?thesis by simp
    next
      case (Waiter b)
      with Returned that have w: "holds s b res e" "done_closed s b" "\<not> hit" by simp_all
      with nd have "b \<noteq> a" by auto
      with w Returned Waiter h [of b res e] cl [of b] show ?thesis by simp
    qed (simp_all add: Returned)
  qed simp_all
  have "Suc (length (filter (fetching_on key) (callers ?s')))
          = length (filter (fetching_on key) (callers s))"
    unfolding cs' using i by (intro count_upd_leave) simp_all
  with io have "length (filter (fetching_on key) (callers ?s')) = 0"
    unfolding inv_one_def by (metis Suc_le_mono le_zero_eq One_nat_def)
  then have gone: "\<forall>c\<in>set (callers ?s'). \<not> fetching_on key c"
    using count_zero_iff [of "fetching_on key" "callers ?s'"] by blast
  have 1: "inv_callers ?s'"
    unfolding inv_callers_def
  proof
    fix c assume m: "c \<in> set (callers ?s')"
    then have "c = Notifying a result err \<or> c \<in> set (callers s)"
      unfolding cs' by (auto dest: set_upd)
    then show "caller_ok ?s' c"
    proof
      assume "c = Notifying a result err"
      then show ?thesis using una by (simp add: holds_def heap')
    next
      assume "c \<in> set (callers s)"
      with ic have "caller_ok s c" by (simp add: inv_callers_def)
      moreover have "\<not> fetching_on key c" using gone m by simp
      ultimately show ?thesis by (rule keep)
    qed
  qed
  have 2: "inv_one ?s'"
    unfolding inv_one_def
  proof
    fix k
    have "length (filter (fetching_on k) (callers ?s'))
            \<le> length (filter (fetching_on k) (callers s))"
      unfolding cs' using count_upd [of "fetching_on k" "callers s" i "Notifying a result err"]
      by simp
    also have "\<dots> \<le> 1" using io by (simp add: inv_one_def)
    finally show "length (filter (fetching_on k) (callers ?s')) \<le> 1" .
  qed
  have 3: "inv_open ?s'"
    unfolding inv_open_def
  proof (intro allI impI)
    fix k b assume "inflight (cache ?s') k = Some b"
    then have "inflight (cache s) k = Some b" by (simp add: infl' split: if_splits)
    with iop have "heap s b \<noteq> None" "\<not> done_closed s b" by (simp_all add: inv_open_def)
    then show "heap ?s' b \<noteq> None \<and> \<not> done_closed ?s' b" by (simp add: cl heap')
  qed
  have 4: "inv_inj ?s'"
    using ii unfolding inv_inj_def infl' by (auto split: if_splits)
  have 5: "inv_alloc ?s'"
    using ia r unfolding inv_alloc_def heap' na' by auto
  from 1 2 3 4 5 show ?thesis by (simp add: coherent_def)
qed

text \<open>Closing the channel.\<close>

lemma coherent_notify:
  assumes c: "coherent s" and i: "i < length (callers s)" "callers s ! i = Notifying a result err"
  shows "coherent (GetOrFetch_notify s i a result err)" (is "coherent ?s'")
proof -
  from c have ic: "inv_callers s" and io: "inv_one s" and iop: "inv_open s" and ii: "inv_inj s"
    and ia: "inv_alloc s" by (simp_all add: coherent_def)
  have mem: "Notifying a result err \<in> set (callers s)" using i by (metis nth_mem)
  with ic have me: "holds s a result err" "unregistered s a" by (auto simp: inv_callers_def)
  then obtain r where r: "heap s a = Some r" "ir_result r = result" "ir_err r = err"
    by (auto simp: holds_def)
  have heap': "heap ?s' = (heap s)(a \<mapsto> r\<lparr>ir_done := True\<rparr>)"
    using r by (simp add: GetOrFetch_notify_def)
  have infl': "inflight (cache ?s') = inflight (cache s)" by (simp add: GetOrFetch_notify_def)
  have cs': "callers ?s' = (callers s)[i := Returned (Leader a) result False err]"
    by (simp add: GetOrFetch_notify_def)
  have na': "next_addr ?s' = next_addr s" by (simp add: GetOrFetch_notify_def)
  have h: "holds ?s' b res e" if "holds s b res e" for b res e
    using that r by (auto simp: holds_def heap')
  have cl: "done_closed ?s' b" if "done_closed s b" for b
    using that by (auto simp: done_closed_def heap')
  have cl2: "done_closed s b" if "done_closed ?s' b" "b \<noteq> a" for b
    using that by (auto simp: done_closed_def heap')
  have un: "unregistered ?s' b \<longleftrightarrow> unregistered s b" for b
    by (simp add: unregistered_def infl')
  have keep: "caller_ok ?s' c" if "caller_ok s c" for c
  proof (cases c)
    case (Fetching k b)
    with that show ?thesis by (simp add: infl')
  next
    case (Notifying b res e)
    with that h [of b res e] show ?thesis by (simp add: un)
  next
    case (Returned ro res hit e)
    show ?thesis
    proof (cases ro)
      case (Leader b)
      with Returned that h [of b res e] show ?thesis by (simp add: un)
    next
      case (Waiter b)
      with Returned that h [of b res e] cl [of b] show ?thesis by simp
    qed (simp_all add: Returned)
  qed simp_all
  have 1: "inv_callers ?s'"
    unfolding inv_callers_def
  proof
    fix c assume m: "c \<in> set (callers ?s')"
    then have "c = Returned (Leader a) result False err \<or> c \<in> set (callers s)"
      unfolding cs' by (auto dest: set_upd)
    then show "caller_ok ?s' c"
    proof
      assume "c = Returned (Leader a) result False err"
      then show ?thesis using h [OF me(1)] me(2) by (simp add: un)
    next
      assume "c \<in> set (callers s)"
      with ic have "caller_ok s c" by (simp add: inv_callers_def)
      then show ?thesis by (rule keep)
    qed
  qed
  have 2: "inv_one ?s'"
    unfolding inv_one_def
  proof
    fix k
    have "length (filter (fetching_on k) (callers ?s'))
            \<le> length (filter (fetching_on k) (callers s))"
      unfolding cs'
      using count_upd [of "fetching_on k" "callers s" i "Returned (Leader a) result False err"]
      by simp
    also have "\<dots> \<le> 1" using io by (simp add: inv_one_def)
    finally show "length (filter (fetching_on k) (callers ?s')) \<le> 1" .
  qed
  have 3: "inv_open ?s'"
    unfolding inv_open_def
  proof (intro allI impI)
    fix k b assume "inflight (cache ?s') k = Some b"
    then have reg: "inflight (cache s) k = Some b" by (simp add: infl')
    with me(2) have ne: "b \<noteq> a" by (auto simp: unregistered_def)
    from reg iop have "heap s b \<noteq> None" "\<not> done_closed s b" by (simp_all add: inv_open_def)
    with ne cl2 [of b] show "heap ?s' b \<noteq> None \<and> \<not> done_closed ?s' b" by (auto simp: heap')
  qed
  have 4: "inv_inj ?s'" using ii unfolding inv_inj_def infl' .
  have 5: "inv_alloc ?s'" using ia r unfolding inv_alloc_def heap' na' by auto
  from 1 2 3 4 5 show ?thesis by (simp add: coherent_def)
qed

lemma coherent_enter:
  assumes c: "coherent s"
  shows "coherent (GetOrFetch_enter s i key now)"
proof (cases "lookup_fresh (cache s) key now")
  case (Some entry)
  then have "GetOrFetch_enter s i key now
      = s\<lparr>callers := (callers s)[i := Returned Hit (ce_result entry) True None]\<rparr>"
    by (simp add: GetOrFetch_enter_def)
  with c show ?thesis by (simp add: coherent_upd)
next
  case None
  show ?thesis
  proof (cases "inflight (cache s) key")
    case (Some a)
    with None have "GetOrFetch_enter s i key now = s\<lparr>callers := (callers s)[i := Waiting a]\<rparr>"
      by (simp add: GetOrFetch_enter_def)
    with c show ?thesis by (simp add: coherent_upd)
  next
    case nf: None
    from coherent_lead [OF c nf, of i] None nf show ?thesis
      by (simp add: GetOrFetch_enter_def)
  qed
qed

lemma coherent_step:
  assumes c: "coherent s" and st: "step s ev = Some s'"
  shows "coherent s'"
proof (cases ev)
  case (Call key)
  with st c show ?thesis by (auto simp: step_def coherent_Call)
next
  case (Enter i now)
  with st c show ?thesis
    by (auto simp: step_def coherent_enter split: if_splits caller.splits)
next
  case (FetchReturns i result err now)
  with st c show ?thesis
    by (auto simp: step_def coherent_store split: if_splits caller.splits)
next
  case (CloseDone i)
  with st c show ?thesis
    by (auto simp: step_def coherent_notify split: if_splits caller.splits)
next
  case (DoneFires i)
  with st obtain a r where s': "s' = s\<lparr>callers := (callers s)
                          [i := Returned (Waiter a) (ir_result r) False (ir_err r)]\<rparr>"
    and r: "heap s a = Some r" "ir_done r"
    by (auto simp: step_def split: if_splits caller.splits option.splits)
  have "caller_ok s (Returned (Waiter a) (ir_result r) False (ir_err r))"
    using r by (simp add: holds_def done_closed_def)
  with c show ?thesis unfolding s' by (intro coherent_upd) simp_all
next
  case (CtxDone i cause)
  with st c show ?thesis
    by (auto simp: step_def coherent_upd split: if_splits caller.splits)
next
  case (EvInvalidate key)
  with st c show ?thesis by (auto simp: step_def Invalidate_def coherent_entries)
next
  case EvClear
  with st c show ?thesis by (auto simp: step_def Clear_def coherent_entries)
next
  case (EvCleanup now)
  with st c show ?thesis by (auto simp: step_def cache_cleanup_tick_def coherent_entries)
qed

lemma coherent_exec: "coherent s \<Longrightarrow> exec s evs = Some s' \<Longrightarrow> coherent s'"
proof (induction evs arbitrary: s)
  case Nil then show ?case by simp
next
  case (Cons ev evs)
  then obtain s1 where s1: "step s ev = Some s1" "exec s1 evs = Some s'"
    by (auto split: option.splits)
  from coherent_step [OF Cons.prems(1) s1(1)] s1(2) show ?case by (rule Cons.IH)
qed

lemma keep_member: "x \<in> set xs \<Longrightarrow> xs ! i \<noteq> x \<Longrightarrow> x \<in> set (xs[i := c])"
  by (metis in_set_conv_nth length_list_update nth_list_update_neq)

lemma inv_led_upd:
  assumes "inv_led s" "\<And>a. done_closed s' a \<Longrightarrow> done_closed s a"
    "callers s' = (callers s)[i := c]" "\<And>a res err. callers s ! i \<noteq> Returned (Leader a) res False err"
  shows "inv_led s'"
  unfolding inv_led_def
proof (intro allI impI)
  fix a assume "done_closed s' a"
  then have "done_closed s a" by (rule assms(2))
  with assms(1) obtain res err where "Returned (Leader a) res False err \<in> set (callers s)"
    by (auto simp: inv_led_def)
  then have "Returned (Leader a) res False err \<in> set (callers s')"
    unfolding assms(3) using assms(4) by (intro keep_member) auto
  then show "\<exists>res err. Returned (Leader a) res False err \<in> set (callers s')" by blast
qed

lemma closed_enter: "done_closed (GetOrFetch_enter s i key now) a \<Longrightarrow> done_closed s a"
  by (auto simp: GetOrFetch_enter_def done_closed_def split: option.splits if_splits)

lemma callers_enter: "\<exists>c. callers (GetOrFetch_enter s i key now) = (callers s)[i := c]"
  by (auto simp: GetOrFetch_enter_def split: option.splits)

lemma closed_store: "done_closed (GetOrFetch_store s i key a result err now) b \<Longrightarrow> done_closed s b"
  by (auto simp: GetOrFetch_store_def done_closed_def split: option.splits if_splits)

lemma step_Enter:
  "step s (Enter i now) = Some s' \<Longrightarrow>
     \<exists>key. i < length (callers s) \<and> callers s ! i = Idle key \<and> s' = GetOrFetch_enter s i key now"
  by (cases "callers s ! i") (auto simp: step_def split: if_splits)

lemma step_FetchReturns:
  "step s (FetchReturns i result err now) = Some s' \<Longrightarrow>
     \<exists>key a. i < length (callers s) \<and> callers s ! i = Fetching key a
            \<and> s' = GetOrFetch_store s i key a result err now"
  by (cases "callers s ! i") (auto simp: step_def split: if_splits)

lemma step_CloseDone:
  "step s (CloseDone i) = Some s' \<Longrightarrow>
     \<exists>a result err. i < length (callers s) \<and> callers s ! i = Notifying a result err
            \<and> s' = GetOrFetch_notify s i a result err"
  by (cases "callers s ! i") (auto simp: step_def split: if_splits)

lemma step_DoneFires:
  "step s (DoneFires i) = Some s' \<Longrightarrow>
     \<exists>a r. i < length (callers s) \<and> callers s ! i = Waiting a \<and> heap s a = Some r \<and> ir_done r
          \<and> s' = s\<lparr>callers := (callers s)[i := Returned (Waiter a) (ir_result r) False (ir_err r)]\<rparr>"
  by (cases "callers s ! i") (auto simp: step_def split: if_splits option.splits)

lemma step_CtxDone:
  "step s (CtxDone i cause) = Some s' \<Longrightarrow>
     \<exists>a. i < length (callers s) \<and> callers s ! i = Waiting a
          \<and> s' = s\<lparr>callers := (callers s)[i := Returned (Cancelled a) None False (Some cause)]\<rparr>"
  by (cases "callers s ! i") (auto simp: step_def split: if_splits)

lemma step_other:
  "step s (Call key) = Some (s\<lparr>callers := callers s @ [Idle key]\<rparr>)"
  "step s (EvInvalidate key) = Some (s\<lparr>cache := Invalidate (cache s) key\<rparr>)"
  "step s EvClear = Some (s\<lparr>cache := Clear (cache s)\<rparr>)"
  "step s (EvCleanup now) = Some (s\<lparr>cache := cache_cleanup_tick (cache s) now\<rparr>)"
  by (simp_all add: step_def)

lemma inv_led_step:
  assumes l: "inv_led s" and st: "step s ev = Some s'"
  shows "inv_led s'"
proof (cases ev)
  case (Call key)
  with st have "s' = s\<lparr>callers := callers s @ [Idle key]\<rparr>" by (simp add: step_other)
  with l show ?thesis by (auto simp: inv_led_def done_closed_def)
next
  case (Enter i now)
  with st step_Enter [of s i now s'] obtain key where i: "callers s ! i = Idle key"
    and s': "s' = GetOrFetch_enter s i key now" by blast
  from callers_enter [of s i key now] obtain c where cs: "callers s' = (callers s)[i := c]"
    unfolding s' by blast
  have cl: "\<And>a. done_closed s' a \<Longrightarrow> done_closed s a" unfolding s' by (rule closed_enter)
  have ne: "\<And>a res err. callers s ! i \<noteq> Returned (Leader a) res False err" using i by simp
  show ?thesis using l cl cs ne by (rule inv_led_upd)
next
  case (FetchReturns i result err now)
  with st step_FetchReturns [of s i result err now s'] obtain key a
    where i: "callers s ! i = Fetching key a"
    and s': "s' = GetOrFetch_store s i key a result err now" by blast
  have cs: "callers s' = (callers s)[i := Notifying a result err]"
    unfolding s' by (simp add: GetOrFetch_store_def)
  have cl: "\<And>b. done_closed s' b \<Longrightarrow> done_closed s b" unfolding s' by (rule closed_store)
  have ne: "\<And>a res err. callers s ! i \<noteq> Returned (Leader a) res False err" using i by simp
  show ?thesis using l cl cs ne by (rule inv_led_upd)
next
  case (CloseDone i)
  with st step_CloseDone [of s i s'] obtain a result err
    where i: "i < length (callers s)" "callers s ! i = Notifying a result err"
    and s': "s' = GetOrFetch_notify s i a result err" by blast
  have cs: "callers s' = (callers s)[i := Returned (Leader a) result False err]"
    unfolding s' by (simp add: GetOrFetch_notify_def)
  show ?thesis
    unfolding inv_led_def
  proof (intro allI impI)
    fix b assume cl: "done_closed s' b"
    show "\<exists>res e. Returned (Leader b) res False e \<in> set (callers s')"
    proof (cases "b = a")
      case True
      have "Returned (Leader a) result False err \<in> set (callers s')"
        unfolding cs using i(1) by (rule set_update_memI)
      with True show ?thesis by blast
    next
      case False
      with cl have "done_closed s b"
        unfolding s' by (auto simp: GetOrFetch_notify_def done_closed_def split: option.splits if_splits)
      with l obtain res e where m: "Returned (Leader b) res False e \<in> set (callers s)"
        by (auto simp: inv_led_def)
      have "callers s ! i \<noteq> Returned (Leader b) res False e" using i(2) by simp
      with m have "Returned (Leader b) res False e \<in> set (callers s')"
        unfolding cs by (rule keep_member)
      then show ?thesis by blast
    qed
  qed
next
  case (DoneFires i)
  with st step_DoneFires [of s i s'] obtain a c where i: "callers s ! i = Waiting a"
    and s': "s' = s\<lparr>callers := (callers s)[i := c]\<rparr>" by blast
  have cs: "callers s' = (callers s)[i := c]" unfolding s' by simp
  have cl: "\<And>b. done_closed s' b \<Longrightarrow> done_closed s b" unfolding s' by simp
  have ne: "\<And>a res err. callers s ! i \<noteq> Returned (Leader a) res False err" using i by simp
  show ?thesis using l cl cs ne by (rule inv_led_upd)
next
  case (CtxDone i cause)
  with st step_CtxDone [of s i cause s'] obtain a c where i: "callers s ! i = Waiting a"
    and s': "s' = s\<lparr>callers := (callers s)[i := c]\<rparr>" by blast
  have cs: "callers s' = (callers s)[i := c]" unfolding s' by simp
  have cl: "\<And>b. done_closed s' b \<Longrightarrow> done_closed s b" unfolding s' by simp
  have ne: "\<And>a res err. callers s ! i \<noteq> Returned (Leader a) res False err" using i by simp
  show ?thesis using l cl cs ne by (rule inv_led_upd)
next
  case (EvInvalidate key)
  with st have "s' = s\<lparr>cache := Invalidate (cache s) key\<rparr>" by (simp add: step_other)
  with l show ?thesis by (auto simp: inv_led_def done_closed_def)
next
  case EvClear
  with st have "s' = s\<lparr>cache := Clear (cache s)\<rparr>" by (simp add: step_other)
  with l show ?thesis by (auto simp: inv_led_def done_closed_def)
next
  case (EvCleanup now)
  with st have "s' = s\<lparr>cache := cache_cleanup_tick (cache s) now\<rparr>" by (simp add: step_other)
  with l show ?thesis by (auto simp: inv_led_def done_closed_def)
qed

lemma inv_led_exec: "inv_led s \<Longrightarrow> exec s evs = Some s' \<Longrightarrow> inv_led s'"
proof (induction evs arbitrary: s)
  case Nil then show ?case by simp
next
  case (Cons ev evs)
  then obtain s1 where s1: "step s ev = Some s1" "exec s1 evs = Some s'"
    by (auto split: option.splits)
  from inv_led_step [OF Cons.prems(1) s1(1)] s1(2) show ?case by (rule Cons.IH)
qed

lemma inv_led_init: "inv_led (init_conf t)"
  by (simp add: inv_led_def done_closed_def init_conf_def)

lemma holds_fun: "holds s a res err \<Longrightarrow> holds s a res' err' \<Longrightarrow> res = res' \<and> err = err'"
  by (auto simp: holds_def)

lemma lookup_fresh_later:
  "lookup_fresh c key earlier = None \<Longrightarrow> earlier \<le> now' \<Longrightarrow> lookup_fresh c key now' = None"
  by (auto simp: lookup_fresh_def split: option.splits if_splits)

subsection \<open>Storing and single flight\<close>

text \<open>
  Claim C6. When the leader's \<^verbatim>\<open>fetch\<close> has returned \<open>(result, err)\<close> at time \<open>now\<close>,
  \<^verbatim>\<open>GetOrFetch\<close> stores the entry \<open>(result, now + ttl)\<close> under the key if and only if
  \<open>err\<close> is nil and \<open>result\<close> is not; otherwise the entries are unchanged. The key is no
  longer in flight. After a store, a caller that enters before \<open>now + ttl\<close> gets a hit with
  that result, whatever its hotels are; after an error or a nil result, the next caller
  finds no fresh entry (the clock does not run backwards) and starts a new fetch.
\<close>

theorem GetOrFetch_store_iff:
  "entries (cache (GetOrFetch_store s i key a result err now))
      = (if err = None \<and> result \<noteq> None
         then (entries (cache s))(key \<mapsto> \<lparr>ce_result = result, expiresAt = now + ttl (cache s)\<rparr>)
         else entries (cache s))
   \<and> inflight (cache (GetOrFetch_store s i key a result err now)) key = None
   \<and> (err = None \<and> result \<noteq> None \<and> now' < now + ttl (cache s) \<longrightarrow>
        callers (GetOrFetch_enter (GetOrFetch_store s i key a result err now) j key now')
          = (callers (GetOrFetch_store s i key a result err now))[j := Returned Hit result True None])
   \<and> (\<not> (err = None \<and> result \<noteq> None) \<and> lookup_fresh (cache s) key earlier = None \<and> earlier \<le> now' \<longrightarrow>
        callers (GetOrFetch_enter (GetOrFetch_store s i key a result err now) j key now')
          = (callers (GetOrFetch_store s i key a result err now))
              [j := Fetching key (next_addr (GetOrFetch_store s i key a result err now))])"
proof (intro conjI impI)
  let ?s' = "GetOrFetch_store s i key a result err now"
  show e: "entries (cache ?s')
      = (if err = None \<and> result \<noteq> None
         then (entries (cache s))(key \<mapsto> \<lparr>ce_result = result, expiresAt = now + ttl (cache s)\<rparr>)
         else entries (cache s))"
    by (simp add: GetOrFetch_store_def)
  show nf: "inflight (cache ?s') key = None" by (simp add: GetOrFetch_store_def)
  {
    assume ok: "err = None \<and> result \<noteq> None \<and> now' < now + ttl (cache s)"
    with e have "entries (cache ?s') key
        = Some \<lparr>ce_result = result, expiresAt = now + ttl (cache s)\<rparr>" by simp
    with ok have "lookup_fresh (cache ?s') key now'
        = Some \<lparr>ce_result = result, expiresAt = now + ttl (cache s)\<rparr>"
      by (simp add: lookup_fresh_def)
    then show "callers (GetOrFetch_enter ?s' j key now')
          = (callers ?s')[j := Returned Hit result True None]"
      by (simp add: GetOrFetch_enter_def)
  }
  {
    assume no: "\<not> (err = None \<and> result \<noteq> None) \<and> lookup_fresh (cache s) key earlier = None \<and> earlier \<le> now'"
    then have "lookup_fresh (cache s) key now' = None" by (auto intro: lookup_fresh_later)
    moreover from no have "entries (cache ?s') = entries (cache s)" using e by auto
    ultimately have "lookup_fresh (cache ?s') key now' = None" by (simp add: lookup_fresh_def)
    with nf show "callers (GetOrFetch_enter ?s' j key now')
          = (callers ?s')[j := Fetching key (next_addr ?s')]"
      by (simp add: GetOrFetch_enter_def)
  }
qed

text \<open>A success with an empty hotel list is cached; an error is not, and the next caller fetches.\<close>

theorem GetOrFetch_store_iff_witness:
  "callers (GetOrFetch_enter (GetOrFetch_store
        (the (exec (init_conf 30) [Call ''k'', Call ''k'', Enter 0 0])) 0 ''k'' 0 (Some res0) None 5)
        1 ''k'' 6)
     = [Notifying 0 (Some res0) None, Returned Hit (Some res0) True None]
   \<and> callers (GetOrFetch_enter (GetOrFetch_store
        (the (exec (init_conf 30) [Call ''k'', Call ''k'', Enter 0 0])) 0 ''k'' 0 None (Some ''boom'') 5)
        1 ''k'' 6)
     = [Notifying 0 None (Some ''boom''), Fetching ''k'' 1]
   \<and> Hotels res0 = []"
proof -
  let ?s = "the (exec (init_conf 30) [Call ''k'', Call ''k'', Enter 0 0])"
  let ?ok = "GetOrFetch_store ?s 0 ''k'' 0 (Some res0) None 5"
  let ?bad = "GetOrFetch_store ?s 0 ''k'' 0 None (Some ''boom'') 5"
  have h1: "(None :: error option) = None \<and> Some res0 \<noteq> None \<and> 6 < 5 + ttl (cache ?s)" by code_simp
  have h2: "\<not> (Some ''boom'' = None \<and> (None :: Result option) \<noteq> None)
        \<and> lookup_fresh (cache ?s) ''k'' 0 = None \<and> (0::int) \<le> 6" by code_simp
  note t1 = GetOrFetch_store_iff [where s = ?s and i = 0 and key = "''k''" and a = 0
      and result = "Some res0" and err = None and now = 5 and now' = 6 and j = 1]
  note t2 = GetOrFetch_store_iff [where s = ?s and i = 0 and key = "''k''" and a = 0
      and result = None and err = "Some ''boom''" and now = 5 and now' = 6 and j = 1 and earlier = 0]
  from t1 h1 have 1: "callers (GetOrFetch_enter ?ok 1 ''k'' 6)
      = (callers ?ok)[1 := Returned Hit (Some res0) True None]" by blast
  from t2 h2 have 2: "callers (GetOrFetch_enter ?bad 1 ''k'' 6)
      = (callers ?bad)[1 := Fetching ''k'' (next_addr ?bad)]" by blast
  have 3: "(callers ?ok)[1 := Returned Hit (Some res0) True None]
      = [Notifying 0 (Some res0) None, Returned Hit (Some res0) True None]" by code_simp
  have 4: "(callers ?bad)[1 := Fetching ''k'' (next_addr ?bad)]
      = [Notifying 0 None (Some ''boom''), Fetching ''k'' 1]" by code_simp
  have 5: "Hotels res0 = []" by (simp add: res0_def)
  show ?thesis by (intro conjI) (rule trans [OF 1 3], rule trans [OF 2 4], rule 5)
qed

text \<open>
  Claim C9, as stated, fails for a waiter whose context is done: it leaves the \<^verbatim>\<open>select\<close>
  with \<open>(nil, false, cause)\<close>, not with the result that the leader produces.
\<close>

theorem GetOrFetch_cancelled_waiter_counterexample:
  "map_option callers (exec (init_conf 30)
      [Call ''slow-key'', Call ''slow-key'', Enter 0 0, Enter 1 1])
     = Some [Fetching ''slow-key'' 0, Waiting 0]
   \<and> map_option callers (exec (init_conf 30)
      [Call ''slow-key'', Call ''slow-key'', Enter 0 0, Enter 1 1, CtxDone 1 ''context canceled'',
       FetchReturns 0 (Some res0) None 5, CloseDone 0])
     = Some [Returned (Leader 0) (Some res0) False None,
             Returned (Cancelled 0) None False (Some ''context canceled'')]
   \<and> (None :: Result option) \<noteq> Some res0"
  by code_simp

text \<open>
  Claim C9, amended. In every state that concurrent callers of \<^verbatim>\<open>GetOrFetch\<close> can
  reach, at most one caller per key is running \<^verbatim>\<open>fetch\<close>; while one is, a caller that
  enters for the same key becomes a waiter on the leader's request (or gets a hit) and starts
  no fetch; and every waiter that returns because the request completed returns, with
  \<open>hit = false\<close>, the result and error that the leader of that request returned. (A waiter
  whose context is done first returns the context's cause instead.)
\<close>

theorem GetOrFetch_single_flight:
  assumes "exec (init_conf t) evs = Some s"
  shows "length (filter (fetching_on key) (callers s)) \<le> 1
       \<and> (i < length (callers s) \<and> callers s ! i = Fetching key a \<longrightarrow>
            (\<exists>c. callers (GetOrFetch_enter s j key now) = (callers s)[j := c]
                 \<and> (c = Waiting a \<or> (\<exists>r. c = Returned Hit r True None))))
       \<and> (i < length (callers s) \<and> callers s ! i = Returned (Waiter a) res hit err \<longrightarrow>
            \<not> hit \<and> (\<exists>l<length (callers s). callers s ! l = Returned (Leader a) res False err))"
proof (intro conjI impI)
  have c: "coherent s" using coherent_init assms by (rule coherent_exec)
  have l: "inv_led s" using inv_led_init assms by (rule inv_led_exec)
  from c have ic: "inv_callers s" by (simp add: coherent_def)
  show "length (filter (fetching_on key) (callers s)) \<le> 1"
    using c by (simp add: coherent_def inv_one_def)
  {
    assume "i < length (callers s) \<and> callers s ! i = Fetching key a"
    then have "Fetching key a \<in> set (callers s)" by (metis nth_mem)
    with ic have reg: "inflight (cache s) key = Some a" by (auto simp: inv_callers_def)
    show "\<exists>c. callers (GetOrFetch_enter s j key now) = (callers s)[j := c]
                 \<and> (c = Waiting a \<or> (\<exists>r. c = Returned Hit r True None))"
    proof (cases "lookup_fresh (cache s) key now")
      case None
      with reg have "callers (GetOrFetch_enter s j key now) = (callers s)[j := Waiting a]"
        by (simp add: GetOrFetch_enter_def)
      then show ?thesis by blast
    next
      case (Some entry)
      then have "callers (GetOrFetch_enter s j key now)
          = (callers s)[j := Returned Hit (ce_result entry) True None]"
        by (simp add: GetOrFetch_enter_def)
      then show ?thesis by blast
    qed
  }
  {
    assume "i < length (callers s) \<and> callers s ! i = Returned (Waiter a) res hit err"
    then have "Returned (Waiter a) res hit err \<in> set (callers s)" by (metis nth_mem)
    with ic have w: "holds s a res err" "\<not> hit" "done_closed s a" by (auto simp: inv_callers_def)
    show "\<not> hit" by (rule w(2))
    from l w(3) obtain res' err' where m: "Returned (Leader a) res' False err' \<in> set (callers s)"
      by (auto simp: inv_led_def)
    with ic have "holds s a res' err'" by (auto simp: inv_callers_def)
    with w(1) have "res' = res" "err' = err" by (auto dest: holds_fun)
    with m have "Returned (Leader a) res False err \<in> set (callers s)" by simp
    then show "\<exists>l<length (callers s). callers s ! l = Returned (Leader a) res False err"
      by (auto simp: in_set_conv_nth)
  }
qed

text \<open>Scenario S6 with three callers: one leader, one waiter, one still to enter.\<close>

theorem GetOrFetch_single_flight_witness:
  "map_option callers (exec (init_conf 30)
      [Call ''shared-key'', Call ''shared-key'', Call ''shared-key'', Enter 0 0, Enter 1 1])
     = Some [Fetching ''shared-key'' 0, Waiting 0, Idle ''shared-key'']
   \<and> length (filter (fetching_on ''shared-key'')
        [Fetching ''shared-key'' 0, Waiting 0, Idle ''shared-key'']) \<le> 1
   \<and> (\<exists>c. c = Waiting 0 \<or> (\<exists>r. c = Returned Hit r True None))
   \<and> map_option callers (exec (init_conf 30)
      [Call ''shared-key'', Call ''shared-key'', Call ''shared-key'', Enter 0 0, Enter 1 1,
       FetchReturns 0 (Some res0) None 5, CloseDone 0, DoneFires 1])
     = Some [Returned (Leader 0) (Some res0) False None, Returned (Waiter 0) (Some res0) False None,
             Idle ''shared-key'']
   \<and> (\<exists>l<length [Returned (Leader 0) (Some res0) False None,
                    Returned (Waiter 0) (Some res0) False None, Idle ''shared-key''].
         [Returned (Leader 0) (Some res0) False None, Returned (Waiter 0) (Some res0) False None,
          Idle ''shared-key''] ! l = Returned (Leader 0) (Some res0) False None)"
proof -
  let ?e1 = "[Call ''shared-key'', Call ''shared-key'', Call ''shared-key'', Enter 0 0, Enter 1 1]"
  let ?e2 = "[Call ''shared-key'', Call ''shared-key'', Call ''shared-key'', Enter 0 0, Enter 1 1,
       FetchReturns 0 (Some res0) None 5, CloseDone 0, DoneFires 1]"
  let ?c1 = "[Fetching ''shared-key'' 0, Waiting 0, Idle ''shared-key'']"
  let ?c2 = "[Returned (Leader 0) (Some res0) False None, Returned (Waiter 0) (Some res0) False None,
             Idle ''shared-key'']"
  have m1: "map_option callers (exec (init_conf 30) ?e1) = Some ?c1" by code_simp
  have m2: "map_option callers (exec (init_conf 30) ?e2) = Some ?c2" by code_simp
  from m1 obtain s1 where s1: "exec (init_conf 30) ?e1 = Some s1" "callers s1 = ?c1" by auto
  from m2 obtain s2 where s2: "exec (init_conf 30) ?e2 = Some s2" "callers s2 = ?c2" by auto
  note t1 = GetOrFetch_single_flight [OF s1(1), where key = "''shared-key''" and i = 0 and a = 0
      and j = 2 and now = 2]
  note t2 = GetOrFetch_single_flight [OF s2(1), where key = "''shared-key''" and i = 1 and a = 0
      and res = "Some res0" and hit = False and err = None]
  from t1 have a: "length (filter (fetching_on ''shared-key'') ?c1) \<le> 1" unfolding s1(2) by blast
  have "0 < length (callers s1) \<and> callers s1 ! 0 = Fetching ''shared-key'' 0" unfolding s1(2) by simp
  with t1 have "\<exists>c. callers (GetOrFetch_enter s1 2 ''shared-key'' 2) = (callers s1)[2 := c]
                 \<and> (c = Waiting 0 \<or> (\<exists>r. c = Returned Hit r True None))" by blast
  then have b: "\<exists>c. c = Waiting 0 \<or> (\<exists>r. c = Returned Hit r True None)" by blast
  have "1 < length (callers s2) \<and> callers s2 ! 1 = Returned (Waiter 0) (Some res0) False None"
    unfolding s2(2) by simp
  with t2 have c: "\<exists>l<length ?c2. ?c2 ! l = Returned (Leader 0) (Some res0) False None"
    unfolding s2(2) by blast
  show ?thesis by (intro conjI) (rule m1, rule a, rule b, rule m2, rule c)
qed

end
